theory Spec2Isabelle
  imports Main "HOL-Library.AList"
begin

section \<open>Strings\<close>

text \<open>
  Python strings are modelled as HOL strings.  File names are taken to be ASCII, so
  \<open>str.lower\<close> only has to move the letters \<open>A\<close> .. \<open>Z\<close>.
\<close>

definition lower_char :: "char \<Rightarrow> char" where
  "lower_char c =
     (case map_of (zip ''ABCDEFGHIJKLMNOPQRSTUVWXYZ'' ''abcdefghijklmnopqrstuvwxyz'') c of
        None \<Rightarrow> c
      | Some l \<Rightarrow> l)"

definition lower :: "string \<Rightarrow> string" where
  "lower s = map lower_char s"

text \<open>\<open>s.split(sep)\<close> for a one-character separator: never the empty list.\<close>

fun split_on :: "char \<Rightarrow> string \<Rightarrow> string list" where
  "split_on sep [] = [[]]"
| "split_on sep (c # cs) =
     (if c = sep then [] # split_on sep cs
      else (case split_on sep cs of [] \<Rightarrow> [[c]] | w # ws \<Rightarrow> (c # w) # ws))"

text \<open>\<open>sep.join(parts)\<close>.\<close>

fun join_with :: "string \<Rightarrow> string list \<Rightarrow> string" where
  "join_with sep [] = []"
| "join_with sep [x] = x"
| "join_with sep (x # y # ys) = x @ sep @ join_with sep (y # ys)"

text \<open>\<open>s.startswith(p)\<close>, \<open>s.endswith(p)\<close> and \<open>s.rstrip('/')\<close>.\<close>

definition startswith :: "string \<Rightarrow> string \<Rightarrow> bool" where
  "startswith s p = (take (length p) s = p)"

definition endswith :: "string \<Rightarrow> string \<Rightarrow> bool" where
  "endswith s p = (length p \<le> length s \<and> drop (length s - length p) s = p)"

definition rstrip_slash :: "string \<Rightarrow> string" where
  "rstrip_slash s = rev (dropWhile (\<lambda>c. c = CHR ''/'') (rev s))"

section \<open>The path functions of \<open>os.path\<close> (POSIX)\<close>

text \<open>\<open>os.path.join(a, b)\<close>.\<close>

definition path_join :: "string \<Rightarrow> string \<Rightarrow> string" where
  "path_join a b =
     (if startswith b ''/'' then b
      else if a = [] \<or> endswith a ''/'' then a @ b
      else a @ ''/'' @ b)"

text \<open>
  \<open>os.path.basename(p)\<close> is \<open>p[i:]\<close> and \<open>os.path.dirname(p)\<close> is \<open>p[:i]\<close> with
  \<open>i = p.rfind('/') + 1\<close>; the head loses its trailing slashes unless it consists of
  slashes only.
\<close>

definition basename :: "string \<Rightarrow> string" where
  "basename p = rev (takeWhile (\<lambda>c. c \<noteq> CHR ''/'') (rev p))"

definition dirname :: "string \<Rightarrow> string" where
  "dirname p =
     (let head = rev (dropWhile (\<lambda>c. c \<noteq> CHR ''/'') (rev p))
      in if head \<noteq> [] \<and> head \<noteq> replicate (length head) (CHR ''/'') then rstrip_slash head
         else head)"

text \<open>
  \<open>os.path.normpath(path)\<close>: the loop over the components keeps the list \<open>new_comps\<close>;
  \<open>initial_slashes\<close> is 0, 1 or 2.
\<close>

definition initial_slashes :: "string \<Rightarrow> nat" where
  "initial_slashes path =
     (if startswith path ''/'' then
        (if startswith path ''//'' \<and> \<not> startswith path ''///'' then 2 else 1)
      else 0)"

definition normpath_step :: "nat \<Rightarrow> string list \<Rightarrow> string \<Rightarrow> string list" where
  "normpath_step ini new_comps cmp =
     (if cmp = [] \<or> cmp = ''.'' then new_comps
      else if cmp \<noteq> ''..'' \<or> (ini = 0 \<and> new_comps = [])
              \<or> (new_comps \<noteq> [] \<and> last new_comps = ''..'')
           then new_comps @ [cmp]
      else if new_comps \<noteq> [] then butlast new_comps
      else new_comps)"

definition normpath :: "string \<Rightarrow> string" where
  "normpath path =
     (if path = [] then ''.''
      else
        (let ini = initial_slashes path;
             comps = foldl (normpath_step ini) [] (split_on (CHR ''/'') path);
             p = replicate ini (CHR ''/'') @ join_with ''/'' comps
         in if p = [] then ''.'' else p))"

text \<open>\<open>os.path.abspath(path)\<close>; \<open>cwd\<close> is what \<open>os.getcwd()\<close> returns.\<close>

definition abspath :: "string \<Rightarrow> string \<Rightarrow> string" where
  "abspath cwd path =
     normpath (if startswith path ''/'' then path else path_join cwd path)"

text \<open>The longest common prefix of two lists (\<open>commonprefix\<close> on two component lists).\<close>

fun commonprefix :: "'a list \<Rightarrow> 'a list \<Rightarrow> 'a list" where
  "commonprefix (x # xs) (y # ys) = (if x = y then x # commonprefix xs ys else [])"
| "commonprefix _ _ = []"

text \<open>The non-empty components of a path, \<open>[x for x in p.split('/') if x]\<close>.\<close>

definition path_comps :: "string \<Rightarrow> string list" where
  "path_comps p = filter (\<lambda>x. x \<noteq> []) (split_on (CHR ''/'') p)"

datatype exn =
    SystemExit nat
  | ValueError
  | OSError
  | PipelineError

text \<open>\<open>os.path.relpath(path, start)\<close>; it raises \<open>ValueError\<close> on the empty path.\<close>

definition relpath :: "string \<Rightarrow> string \<Rightarrow> string \<Rightarrow> exn + string" where
  "relpath cwd path start =
     (if path = [] then Inl ValueError
      else
        (let start_list = path_comps (abspath cwd start);
             path_list = path_comps (abspath cwd path);
             i = length (commonprefix start_list path_list);
             rel_list = replicate (length start_list - i) ''..'' @ drop i path_list
         in if rel_list = [] then Inr ''.'' else Inr (foldl path_join (hd rel_list) (tl rel_list))))"

section \<open>The file system\<close>

text \<open>
  The file system is a tree: a regular file with its contents, a special file (socket,
  FIFO, device), or a directory with its entries in the order the operating system lists
  them.  Symbolic links and permissions are not modelled.  A path is looked up from the
  root by its non-empty components; every path that reaches the file system here is the
  result of \<open>abspath\<close>, or made from one by joining names of directory entries.
\<close>

datatype node = File string | Special | Dir "(string \<times> node) list"

fun resolve :: "node \<Rightarrow> string list \<Rightarrow> node option" where
  "resolve n [] = Some n"
| "resolve (Dir es) (c # cs) =
     (case map_of es c of None \<Rightarrow> None | Some ch \<Rightarrow> resolve ch cs)"
| "resolve _ (c # cs) = None"

definition lookup :: "node \<Rightarrow> string \<Rightarrow> node option" where
  "lookup root p = resolve root (path_comps p)"

definition isdir :: "node \<Rightarrow> string \<Rightarrow> bool" where
  "isdir root p = (case lookup root p of Some (Dir _) \<Rightarrow> True | _ \<Rightarrow> False)"

definition isfile :: "node \<Rightarrow> string \<Rightarrow> bool" where
  "isfile root p = (case lookup root p of Some (File _) \<Rightarrow> True | _ \<Rightarrow> False)"

fun is_dir_node :: "node \<Rightarrow> bool" where
  "is_dir_node (Dir _) = True"
| "is_dir_node _ = False"

text \<open>
  \<open>os.walk(top)\<close>, top-down, errors ignored: one triple \<open>(root, dirs, nondirs)\<close> for the
  directory itself, then the walk of every subdirectory in turn.  Walking something that
  is not a directory yields nothing.
\<close>

type_synonym walk_entry = "string \<times> string list \<times> string list"

fun walk :: "string \<Rightarrow> node \<Rightarrow> walk_entry list"
  and walk_dirs :: "string \<Rightarrow> (string \<times> node) list \<Rightarrow> walk_entry list" where
  "walk root (Dir es) =
     (root, map fst (filter (\<lambda>e. is_dir_node (snd e)) es),
           map fst (filter (\<lambda>e. \<not> is_dir_node (snd e)) es)) # walk_dirs root es"
| "walk root (File _) = []"
| "walk root Special = []"
| "walk_dirs root [] = []"
| "walk_dirs root (e # es) =
     (if is_dir_node (snd e) then walk (path_join root (fst e)) (snd e) else []) @ walk_dirs root es"

text \<open>
  \<open>os.makedirs(name, exist_ok=True)\<close> by its effect on the tree: every missing directory
  along the path is created; it fails when a component exists and is not a directory.
\<close>

fun mkdirs :: "node \<Rightarrow> string list \<Rightarrow> node option" where
  "mkdirs (Dir es) [] = Some (Dir es)"
| "mkdirs (Dir es) (c # cs) =
     (case mkdirs (case map_of es c of None \<Rightarrow> Dir [] | Some ch \<Rightarrow> ch) cs of
        None \<Rightarrow> None
      | Some d \<Rightarrow> Some (Dir (AList.update c d es)))"
| "mkdirs _ _ = None"

definition makedirs :: "string \<Rightarrow> node \<Rightarrow> exn + node" where
  "makedirs name root =
     (case mkdirs root (path_comps name) of None \<Rightarrow> Inl OSError | Some root' \<Rightarrow> Inr root')"

section \<open>The collaborators of \<open>main.py\<close>\<close>

text \<open>
  Modelled from the spec: the persistence operation \<open>write_to_file\<close> of the value that
  \<open>Documenter.process\<close> returns (module \<open>cmakedoc\<close>, absent here).  It writes the text
  serialization to the path in one step: into an existing directory, over nothing or over
  a regular file; in every other case it fails and the file system is as before.  It
  returns the outcome and the file system it leaves.
\<close>

fun put_file :: "node \<Rightarrow> string list \<Rightarrow> string \<Rightarrow> node option" where
  "put_file (Dir es) [c] txt =
     (case map_of es c of
        None \<Rightarrow> Some (Dir (AList.update c (File txt) es))
      | Some (File _) \<Rightarrow> Some (Dir (AList.update c (File txt) es))
      | Some _ \<Rightarrow> None)"
| "put_file (Dir es) (c # cs) txt =
     (case map_of es c of
        None \<Rightarrow> None
      | Some ch \<Rightarrow>
          (case put_file ch cs txt of
             None \<Rightarrow> None
           | Some d \<Rightarrow> Some (Dir (AList.update c d es))))"
| "put_file _ _ _ = None"

definition write_to_file :: "string \<Rightarrow> string \<Rightarrow> node \<Rightarrow> (exn + unit) \<times> node" where
  "write_to_file txt name root =
     (case put_file root (path_comps name) txt of
        None \<Rightarrow> (Inl OSError, root)
      | Some root' \<Rightarrow> (Inr (), root'))"

text \<open>
  \<open>Documenter(file, header_name).process()\<close> is a parameter of the model: from the file
  name, the header name and the file system it reads, it raises, or it returns the
  warnings it surfaces and the rendered output (the text that \<open>print\<close> shows and that
  \<open>write_to_file\<close> persists).
\<close>

type_synonym documenter = "string \<Rightarrow> string \<Rightarrow> node \<Rightarrow> exn + (string list \<times> string)"

section \<open>\<open>main.py\<close>\<close>

text \<open>
  The state of a run: the file system, and the lines printed to standard output and to
  standard error.
\<close>

record state =
  fs :: node
  stdout :: "string list"
  stderr :: "string list"

definition print :: "string \<Rightarrow> state \<Rightarrow> state" where
  "print line s = s\<lparr>stdout := stdout s @ [line]\<rparr>"

definition print_err :: "string \<Rightarrow> state \<Rightarrow> state" where
  "print_err line s = s\<lparr>stderr := stderr s @ [line]\<rparr>"

text \<open>Line 76: \<open>"cmake" == file.split(".")[-1].lower()\<close>.\<close>

definition is_cmake :: "string \<Rightarrow> bool" where
  "is_cmake file = (''cmake'' = lower (last (split_on (CHR ''.'') file)))"

text \<open>Lines 74 to 79: the loop over \<open>os.walk(input_path)\<close>, left after one round unless recursive.\<close>

fun collect :: "bool \<Rightarrow> walk_entry list \<Rightarrow> string list" where
  "collect recursive [] = []"
| "collect recursive ((root, subdirs, filenames) # rest) =
     map (path_join root) (filter is_cmake filenames)
     @ (if recursive then collect recursive rest else [])"

text \<open>Lines 96 and 99: \<open>".".join(os.path.basename(file).split(".")[:-1]) + ".rst"\<close>.\<close>

definition rst_name :: "string \<Rightarrow> string" where
  "rst_name file = join_with ''.'' (butlast (split_on (CHR ''.'') (basename file))) @ ''.rst''"

text \<open>Lines 96 to 99: the name of the output file.\<close>

definition output_filename :: "string \<Rightarrow> node \<Rightarrow> string \<Rightarrow> string \<Rightarrow> string \<Rightarrow> exn + string" where
  "output_filename cwd root input_path output_path file =
     (if isdir root input_path then
        (case relpath cwd file input_path of
           Inl e \<Rightarrow> Inl e
         | Inr subpath \<Rightarrow>
             Inr (path_join output_path (path_join (dirname subpath) (rst_name file))))
      else Inr (path_join output_path (rst_name file)))"

text \<open>Lines 93 to 105: where the rendered output goes.\<close>

definition emit :: "string \<Rightarrow> string \<Rightarrow> string option \<Rightarrow> string \<Rightarrow> string \<Rightarrow> state
    \<Rightarrow> (exn + unit) \<times> state" where
  "emit cwd input_path output_path file txt s =
     (case output_path of
        Some out \<Rightarrow>
          (let s1 = print (''Writing for file '' @ file) s in
           if isdir (fs s1) out then
             (case output_filename cwd (fs s1) input_path out file of
                Inl e \<Rightarrow> (Inl e, s1)
              | Inr name \<Rightarrow>
                  (let s2 = print (''Writing RST file '' @ name) s1 in
                   case makedirs (dirname name) (fs s2) of
                     Inl e \<Rightarrow> (Inl e, s2)
                   | Inr root1 \<Rightarrow>
                       (case write_to_file txt name root1 of
                          (Inl e, root2) \<Rightarrow> (Inl e, s2\<lparr>fs := root2\<rparr>)
                        | (Inr _, root2) \<Rightarrow> (Inr (), s2\<lparr>fs := root2\<rparr>))))
           else (Inr (), s1))
      | None \<Rightarrow> (Inr (), print [] (print txt s)))"

text \<open>Lines 87 to 90: the header name.\<close>

definition header_name :: "string \<Rightarrow> node \<Rightarrow> string \<Rightarrow> string \<Rightarrow> exn + string" where
  "header_name cwd root input_path file =
     (if isdir root input_path then relpath cwd file input_path else Inr file)"

text \<open>Lines 87 to 105: the body of the loop over the files found.\<close>

definition process_file :: "documenter \<Rightarrow> string \<Rightarrow> string \<Rightarrow> string option \<Rightarrow> string \<Rightarrow> state
    \<Rightarrow> (exn + unit) \<times> state" where
  "process_file doc cwd input_path output_path file s =
     (case header_name cwd (fs s) input_path file of
        Inl e \<Rightarrow> (Inl e, s)
      | Inr header \<Rightarrow>
          (case doc file header (fs s) of
             Inl e \<Rightarrow> (Inl e, s)
           | Inr (warnings, txt) \<Rightarrow>
               emit cwd input_path output_path file txt (s\<lparr>stderr := stderr s @ warnings\<rparr>)))"

text \<open>Line 86: the loop; an exception leaves it.\<close>

fun process_files :: "documenter \<Rightarrow> string \<Rightarrow> string \<Rightarrow> string option \<Rightarrow> string list \<Rightarrow> state
    \<Rightarrow> (exn + unit) \<times> state" where
  "process_files doc cwd input_path output_path [] s = (Inr (), s)"
| "process_files doc cwd input_path output_path (file # files) s =
     (case process_file doc cwd input_path output_path file s of
        (Inl e, s') \<Rightarrow> (Inl e, s')
      | (Inr _, s') \<Rightarrow> process_files doc cwd input_path output_path files s')"

text \<open>Lines 69 to 84: the files to document.  \<open>exit(1)\<close> raises \<open>SystemExit(1)\<close>.\<close>

definition find_files :: "string \<Rightarrow> bool \<Rightarrow> state \<Rightarrow> (exn + string list) \<times> state" where
  "find_files input_path recursive s =
     (if isdir (fs s) input_path then
        (Inr (collect recursive
               (case lookup (fs s) input_path of None \<Rightarrow> [] | Some n \<Rightarrow> walk input_path n)), s)
      else if isfile (fs s) input_path then (Inr [input_path], s)
      else (Inl (SystemExit 1),
            print_err ''File is a special file (socket, FIFO, device file) and is unsupported'' s))"

definition document :: "documenter \<Rightarrow> string \<Rightarrow> string \<Rightarrow> string option \<Rightarrow> bool \<Rightarrow> state
    \<Rightarrow> (exn + unit) \<times> state" where
  "document doc cwd file output_path recursive s =
     (let input_path = abspath cwd file in
      case find_files input_path recursive s of
        (Inl e, s') \<Rightarrow> (Inl e, s')
      | (Inr files, s') \<Rightarrow> process_files doc cwd input_path output_path files s')"

text \<open>Lines 54 to 56: the loop over the command line's files.\<close>

fun document_all :: "documenter \<Rightarrow> string \<Rightarrow> string option \<Rightarrow> bool \<Rightarrow> string list \<Rightarrow> state
    \<Rightarrow> (exn + unit) \<times> state" where
  "document_all doc cwd output_path recursive [] s = (Inr (), s)"
| "document_all doc cwd output_path recursive (input # inputs) s =
     (case document doc cwd input output_path recursive s of
        (Inl e, s') \<Rightarrow> (Inl e, s')
      | (Inr _, s') \<Rightarrow> document_all doc cwd output_path recursive inputs s')"

text \<open>Lines 49 to 52: the message about the output directory, when one is given.\<close>

definition announce :: "string option \<Rightarrow> state \<Rightarrow> state" where
  "announce output_path s =
     (case output_path of
        None \<Rightarrow> s
      | Some p \<Rightarrow> print (''Writing RST files to '' @ p) s)"

text \<open>
  \<open>main\<close>, after \<open>argparse\<close>: \<open>files\<close>, \<open>output\<close> and \<open>recursive\<close> are the parsed arguments;
  \<open>nargs="+"\<close> makes \<open>argparse\<close> leave with status 2 when no file is given.
\<close>

definition main :: "documenter \<Rightarrow> string \<Rightarrow> string list \<Rightarrow> string option \<Rightarrow> bool \<Rightarrow> state
    \<Rightarrow> (exn + unit) \<times> state" where
  "main doc cwd files output recursive s =
     (if files = [] then
        (Inl (SystemExit 2), print_err ''error: the following arguments are required: file'' s)
      else
        (let output_path = map_option (abspath cwd) output
         in document_all doc cwd output_path recursive files (announce output_path s)))"

text \<open>
  The exit status of the process: 0 when \<open>main\<close> returns, the low eight bits of the
  argument of \<open>SystemExit\<close>, and 1 for any other exception that reaches the top.
\<close>

fun exit_status :: "exn + unit \<Rightarrow> nat" where
  "exit_status (Inr _) = 0"
| "exit_status (Inl (SystemExit n)) = n mod 256"
| "exit_status (Inl _) = 1"

section \<open>A small run, for concrete instances\<close>

text \<open>
  A documenter that fails on an empty file and otherwise returns the header name and the
  source as its output, and a file system with a source directory and an output directory.
\<close>

definition example_doc :: documenter where
  "example_doc file header root =
     (case lookup root file of
        Some (File src) \<Rightarrow>
          if src = [] then Inl PipelineError else Inr ([], header @ '': '' @ src)
      | _ \<Rightarrow> Inl PipelineError)"

definition example_fs :: node where
  "example_fs =
     Dir [(''src'', Dir [(''a.cmake'', File ''x''), (''empty.cmake'', File []),
                         (''fifo'', Special), (''notes.txt'', File ''n''),
                         (''sub'', Dir [(''b.CMake'', File ''y'')])]),
          (''out'', Dir [])]"

definition example_state :: state where
  "example_state = \<lparr>fs = example_fs, stdout = [], stderr = []\<rparr>"

text \<open>
  For stating that warnings do not matter: the documenter with its warnings removed, and
  two states that hold the same file system and the same standard output.
\<close>

definition silence :: "documenter \<Rightarrow> documenter" where
  "silence doc file header root =
     (case doc file header root of Inl e \<Rightarrow> Inl e | Inr (warnings, txt) \<Rightarrow> Inr ([], txt))"

definition agree :: "state \<Rightarrow> state \<Rightarrow> bool" where
  "agree s t = (fs s = fs t \<and> stdout s = stdout t)"

text \<open>A documenter that surfaces one warning for every file it documents.\<close>

definition warning_doc :: documenter where
  "warning_doc file header root =
     (case example_doc file header root of
        Inl e \<Rightarrow> Inl e
      | Inr (warnings, txt) \<Rightarrow> Inr ([''warning: '' @ file], txt))"


fun reach :: "node \<Rightarrow> string list \<Rightarrow> node \<Rightarrow> bool" where
  "reach n [] m = (n = m)"
| "reach (Dir es) (c # cs) m = (\<exists>e \<in> set es. fst e = c \<and> reach (snd e) cs m)"
| "reach _ (c # cs) m = False"

text \<open>
  For stating where the output goes: a name before its last dot (empty when it has no
  dot), and the names that a directory listing can hold.
\<close>

definition stem :: "string \<Rightarrow> string" where
  "stem name =
     (if CHR ''.'' \<in> set name then rev (tl (dropWhile (\<lambda>c. c \<noteq> CHR ''.'') (rev name))) else [])"

definition proper_name :: "string \<Rightarrow> bool" where
  "proper_name c = (c \<noteq> [] \<and> CHR ''/'' \<notin> set c \<and> c \<noteq> ''.'' \<and> c \<noteq> ''..'')"

text \<open>The absolute path with \<open>k\<close> leading slashes and the given components.\<close>

definition rooted :: "nat \<Rightarrow> string list \<Rightarrow> string" where
  "rooted k comps = replicate k (CHR ''/'') @ join_with ''/'' comps"

section \<open>The Block Scanner\<close>

text \<open>
  Modelled from the spec: the Block Scanner of the \<open>cmakedoc\<close> package, which is absent
  here (spec section 4.1).  The start marker is \<open>#[[[\<close> and the end marker is \<open>#]]\<close>.
  From the current position the scanner looks for the next start marker and then, after
  it, for the next end marker: a start marker met inside a block is content.  With both
  found it yields the block, its offsets being those of the first character of the start
  marker and of the position just after the end marker, and resumes right after the end
  marker.  A start marker with no end marker before the end of the text yields no block
  and a warning, and ends the scan.
\<close>

definition start_marker :: string where
  "start_marker = ''#[[[''"

definition end_marker :: string where
  "end_marker = ''#]]''"

text \<open>The index of the first occurrence of a marker in a text.\<close>

fun find_marker :: "string \<Rightarrow> string \<Rightarrow> nat option" where
  "find_marker m [] = (if m = [] then Some 0 else None)"
| "find_marker m (c # cs) =
     (if startswith (c # cs) m then Some 0 else map_option Suc (find_marker m cs))"

record raw_block =
  start_offset :: nat
  end_offset :: nat
  raw_text :: string

datatype warning = MalformedBlock nat | UnterminatedDeclaration nat

function scan_from :: "nat \<Rightarrow> string \<Rightarrow> raw_block list \<times> warning list" where
  "scan_from pos s =
     (case find_marker start_marker s of
        None \<Rightarrow> ([], [])
      | Some i \<Rightarrow>
          (case find_marker end_marker (drop (i + length start_marker) s) of
             None \<Rightarrow> ([], [MalformedBlock (pos + i)])
           | Some j \<Rightarrow>
               (let n = i + length start_marker + j + length end_marker;
                    rest = scan_from (pos + n) (drop n s)
                in (\<lparr>start_offset = pos + i, end_offset = pos + n,
                      raw_text = take j (drop (i + length start_marker) s)\<rparr> # fst rest,
                    snd rest))))"
  by pat_completeness auto

lemma find_marker_in_text: "find_marker m s = Some i \<Longrightarrow> m \<noteq> [] \<Longrightarrow> s \<noteq> []"
  by (cases s) auto

termination scan_from
proof (relation "measure (\<lambda>(pos, s). length s)")
  show "wf (measure (\<lambda>(pos, s). length s))" by simp
next
  fix pos :: nat and s :: string and i j n
  assume "find_marker start_marker s = Some i"
    and n: "n = i + length start_marker + j + length end_marker"
  then have "s \<noteq> []" by (auto dest: find_marker_in_text simp: start_marker_def)
  moreover have "0 < n" using n by (simp add: start_marker_def)
  ultimately show "((pos + n, drop n s), (pos, s)) \<in> measure (\<lambda>(pos, s). length s)"
    by simp
qed

definition scan :: "string \<Rightarrow> raw_block list \<times> warning list" where
  "scan s = scan_from 0 s"

section \<open>From blocks to the Documentation Model\<close>

text \<open>
  Modelled from the spec: the data model of spec section 3 and the data flow of section
  2 (\<open>cmakedoc\<close> package, absent here).  Each block the scanner yields has its comment
  continuations stripped and goes through the Tag Parser and the Construct Associator;
  a block with neither description nor fields is dropped; the entries keep the order of
  the source.  The Tag Parser and the Construct Associator are parameters.
\<close>

record doc_block =
  description :: string
  field_tags :: "(string \<times> string) list"
  source_span :: "nat \<times> nat"

datatype construct_kind = FUNCTION | MACRO | VARIABLE | NONE

record construct_signature =
  kind :: construct_kind
  sig_name :: string
  parameters :: "string list"

record doc_entry =
  block :: doc_block
  signature :: construct_signature

record document_model =
  source_identifier :: string
  header_display_name :: string
  entries :: "doc_entry list"

type_synonym tag_parser = "string \<Rightarrow> string \<times> (string \<times> string) list"

type_synonym associator = "nat \<Rightarrow> string \<Rightarrow> construct_signature \<times> warning list"

definition strip_line :: "string \<Rightarrow> string" where
  "strip_line l =
     (if startswith l ''# '' then drop 2 l else if startswith l ''#'' then drop 1 l else l)"

definition strip_continuation :: "string \<Rightarrow> string" where
  "strip_continuation s =
     join_with [CHR 0x0A] (map strip_line (split_on (CHR 0x0A) s))"

definition bind_block :: "tag_parser \<Rightarrow> associator \<Rightarrow> string \<Rightarrow> raw_block
    \<Rightarrow> doc_entry \<times> warning list" where
  "bind_block parse associate src b =
     (let (d, fl) = parse (strip_continuation (raw_text b));
          (sg, ws) = associate (end_offset b) src
      in (\<lparr>block = \<lparr>description = d, field_tags = fl,
                       source_span = (start_offset b, end_offset b)\<rparr>,
           signature = sg\<rparr>, ws))"

definition build_model :: "tag_parser \<Rightarrow> associator \<Rightarrow> string \<Rightarrow> string \<Rightarrow> string
    \<Rightarrow> document_model \<times> warning list" where
  "build_model parse associate source_id header src =
     (let (blocks, ws) = scan src;
          bound = filter (\<lambda>(e, w). description (block e) \<noteq> [] \<or> field_tags (block e) \<noteq> [])
                    (map (bind_block parse associate src) blocks)
      in (\<lparr>source_identifier = source_id, header_display_name = header,
           entries = map fst bound\<rparr>,
          ws @ concat (map snd bound)))"

text \<open>
  For stating what the scanner finds: a text laid out as gaps and blocks, each block a
  start marker, a body and an end marker, followed by a tail; and the blocks that such a
  layout holds, with their offsets from a given position.
\<close>

fun build :: "(string \<times> string) list \<Rightarrow> string \<Rightarrow> string" where
  "build [] tail = tail"
| "build ((gap, body) # layout) tail =
     gap @ start_marker @ body @ end_marker @ build layout tail"

fun laid_out :: "nat \<Rightarrow> (string \<times> string) list \<Rightarrow> raw_block list" where
  "laid_out pos [] = []"
| "laid_out pos ((gap, body) # layout) =
     \<lparr>start_offset = pos + length gap,
      end_offset = pos + length gap + length start_marker + length body + length end_marker,
      raw_text = body\<rparr>
     # laid_out (pos + length gap + length start_marker + length body + length end_marker) layout"

definition occurs :: "string \<Rightarrow> string \<Rightarrow> bool" where
  "occurs m s = (find_marker m s \<noteq> None)"

section \<open>The Tag Parser, the Construct Associator and the Renderer\<close>

text \<open>
  Modelled from the spec: the Tag Parser of spec section 4.2 (\<open>cmakedoc\<close> package, absent
  here).  The recognized markers are those of the table in section 6, written as in the
  spec's example \<open>:param name: ...\<close>.  A tag line is a marker, a space, an identifier and
  a colon; its payload is the text from the identifier on, as in the example of section
  8, continued by the following lines, joined with single spaces, up to the next tag
  line or a blank line.  The lines before the first tag line are the description; a
  line with an unknown marker is ordinary text.
\<close>

definition markers :: "(string \<times> string) list" where
  "markers = [('':param'', ''param''), ('':returns'', ''returns'')]"

definition ident_char :: "char \<Rightarrow> bool" where
  "ident_char c =
     (c \<in> set ''abcdefghijklmnopqrstuvwxyzABCDEFGHIJKLMNOPQRSTUVWXYZ0123456789_'')"

text \<open>The text after a marker when it is a space, an identifier and a colon.\<close>

definition tag_rest :: "string \<Rightarrow> string \<Rightarrow> string option" where
  "tag_rest marker l =
     (if startswith l (marker @ '' '') then
        (let r = drop (length marker + 1) l;
             ident = takeWhile ident_char r
         in if ident \<noteq> [] \<and> startswith (drop (length ident) r) '':'' then Some r else None)
      else None)"

text \<open>The field kind and the first payload line of a tag line.\<close>

fun tag_line_in :: "(string \<times> string) list \<Rightarrow> string \<Rightarrow> (string \<times> string) option" where
  "tag_line_in [] l = None"
| "tag_line_in ((marker, field) # ms) l =
     (case tag_rest marker l of
        Some r \<Rightarrow> Some (field, r)
      | None \<Rightarrow> tag_line_in ms l)"

definition tag_line :: "string \<Rightarrow> (string \<times> string) option" where
  "tag_line l = tag_line_in markers l"

definition blank :: "string \<Rightarrow> bool" where
  "blank l = (\<forall>c \<in> set l. c = CHR '' '' \<or> c = CHR 0x09)"

text \<open>
  The field tags of the lines from the first tag line on: \<open>cur\<close> is the tag being
  read, if any; a blank line ends it.
\<close>

fun parse_fields :: "(string \<times> string) option \<Rightarrow> string list \<Rightarrow> (string \<times> string) list" where
  "parse_fields cur [] = (case cur of None \<Rightarrow> [] | Some t \<Rightarrow> [t])"
| "parse_fields cur (l # ls) =
     (case tag_line l of
        Some t \<Rightarrow> (case cur of None \<Rightarrow> [] | Some t' \<Rightarrow> [t']) @ parse_fields (Some t) ls
      | None \<Rightarrow>
          (case cur of
             None \<Rightarrow> parse_fields None ls
           | Some (field, payload) \<Rightarrow>
               if blank l then (field, payload) # parse_fields None ls
               else parse_fields (Some (field, payload @ '' '' @ l)) ls))"

definition parse_block :: tag_parser where
  "parse_block s =
     (let ls = split_on (CHR 0x0A) s;
          lead = takeWhile (\<lambda>l. tag_line l = None) ls;
          from_tag = dropWhile (\<lambda>l. tag_line l = None) ls
      in (join_with [CHR 0x0A] lead, parse_fields None from_tag))"

text \<open>
  Modelled from the spec: the Construct Associator of spec section 4.3 (\<open>cmakedoc\<close>
  package, absent here).  After the block, blank lines and ordinary comment lines are
  skipped.  The first other line is a declaration when it begins with \<open>function(\<close>,
  \<open>macro(\<close> or, for a variable, the assignment command \<open>set(\<close>; the text up to the
  closing parenthesis, over several lines if need be, holds the name and the parameter
  names.  Any other line, or none, gives the kind \<open>NONE\<close>; a declaration that is not
  closed before the end of the text gives \<open>NONE\<close> and a warning.
\<close>

definition lstrip :: "string \<Rightarrow> string" where
  "lstrip l = dropWhile (\<lambda>c. c = CHR '' '' \<or> c = CHR 0x09) l"

definition ordinary_comment :: "string \<Rightarrow> bool" where
  "ordinary_comment l = (startswith (lstrip l) ''#'' \<and> \<not> startswith (lstrip l) start_marker)"

definition declaration_keywords :: "(string \<times> construct_kind) list" where
  "declaration_keywords = [(''function('', FUNCTION), (''macro('', MACRO), (''set('', VARIABLE)]"

fun keyword_in :: "(string \<times> construct_kind) list \<Rightarrow> string \<Rightarrow> (construct_kind \<times> string) option" where
  "keyword_in [] l = None"
| "keyword_in ((kw, k) # kws) l =
     (if startswith l kw then Some (k, drop (length kw) l) else keyword_in kws l)"

text \<open>The words of a text: its parts between spaces, tabs and line breaks.\<close>

definition is_space :: "char \<Rightarrow> bool" where
  "is_space c = (c = CHR '' '' \<or> c = CHR 0x09 \<or> c = CHR 0x0A)"

fun words_acc :: "string \<Rightarrow> string \<Rightarrow> string list" where
  "words_acc w [] = (if w = [] then [] else [rev w])"
| "words_acc w (c # cs) =
     (if is_space c then (if w = [] then words_acc [] cs else rev w # words_acc [] cs)
      else words_acc (c # w) cs)"

definition words_of :: "string \<Rightarrow> string list" where
  "words_of s = words_acc [] s"

definition no_signature :: construct_signature where
  "no_signature = \<lparr>kind = NONE, sig_name = [], parameters = []\<rparr>"

definition associate_at :: associator where
  "associate_at end_pos src =
     (let ls = split_on (CHR 0x0A) (drop end_pos src);
          after = dropWhile (\<lambda>l. blank l \<or> ordinary_comment l) ls
      in case after of
           [] \<Rightarrow> (no_signature, [])
         | l # others \<Rightarrow>
             (case keyword_in declaration_keywords (lstrip l) of
                None \<Rightarrow> (no_signature, [])
              | Some (k, r) \<Rightarrow>
                  (let decl = join_with [CHR 0x0A] (r # others)
                   in if CHR '')'' \<in> set decl then
                        (case words_of (takeWhile (\<lambda>c. c \<noteq> CHR '')'') decl) of
                           [] \<Rightarrow> (no_signature, [])
                         | n # ps \<Rightarrow>
                             (\<lparr>kind = k, sig_name = n,
                               parameters = (if k = VARIABLE then [] else ps)\<rparr>, []))
                      else (no_signature, [UnterminatedDeclaration end_pos]))))"

text \<open>
  Modelled from the spec: the Renderer of spec section 4.4 (\<open>cmakedoc\<close> package, absent
  here).  The output is a title from the header name and, for each entry in the model's
  order, a heading by the kind of construct with the name and the parameters in call
  style, the description, and one field list entry \<open>:kind payload\<close> for each field tag.
\<close>

fun directive :: "construct_kind \<Rightarrow> string" where
  "directive FUNCTION = ''.. function:: ''"
| "directive MACRO = ''.. macro:: ''"
| "directive VARIABLE = ''.. data:: ''"
| "directive NONE = []"

definition heading :: "construct_signature \<Rightarrow> string" where
  "heading sg =
     (case kind sg of
        NONE \<Rightarrow> []
      | VARIABLE \<Rightarrow> directive VARIABLE @ sig_name sg
      | k \<Rightarrow> directive k @ sig_name sg @ ''('' @ join_with '', '' (parameters sg) @ '')'')"

definition render_field :: "string \<times> string \<Rightarrow> string" where
  "render_field t = '':'' @ fst t @ '' '' @ snd t"

definition render_entry :: "doc_entry \<Rightarrow> string list" where
  "render_entry e =
     [heading (signature e), [], description (block e), []]
     @ map render_field (field_tags (block e)) @ [[]]"

definition render :: "document_model \<Rightarrow> string" where
  "render m =
     join_with [CHR 0x0A]
       ([header_display_name m, replicate (length (header_display_name m)) (CHR ''#''), []]
        @ concat (map render_entry (entries m)))"

text \<open>
  Modelled from the spec: \<open>Documenter(file, header_name).process()\<close> as the data flow of
  spec section 2 on the text of the file; a file that cannot be read raises.
\<close>

fun show_warning :: "warning \<Rightarrow> string" where
  "show_warning (MalformedBlock at) = ''warning: documentation block is not terminated''"
| "show_warning (UnterminatedDeclaration at) = ''warning: declaration is not terminated''"

definition process :: documenter where
  "process file header root =
     (case lookup root file of
        Some (File src) \<Rightarrow>
          (let (m, ws) = build_model parse_block associate_at file header src
           in Inr (map show_warning ws, render m))
      | _ \<Rightarrow> Inl OSError)"

text \<open>
  The input of the spec's example: a block with the inner text
  \<open>Greets a person.\<close>, line break, \<open>:param name: the person's name\<close>, and right after
  it, on the next line, \<open>function(greet name)\<close> with a body.
\<close>

definition greet_block :: string where
  "greet_block = ''Greets a person.'' @ [CHR 0x0A] @ '':param name: the person's name''"

definition greet_source :: "string \<Rightarrow> string" where
  "greet_source body =
     start_marker @ greet_block @ end_marker @ [CHR 0x0A] @ ''function(greet name)''
     @ [CHR 0x0A] @ body"

definition greet_body :: string where
  "greet_body = ''  message(hello)'' @ [CHR 0x0A] @ ''endfunction()'' @ [CHR 0x0A]"

definition greet_entry :: doc_entry where
  "greet_entry =
     \<lparr>block = \<lparr>description = ''Greets a person.'',
                field_tags = [(''param'', ''name: the person's name'')],
                source_span = (0, 54)\<rparr>,
      signature = \<lparr>kind = FUNCTION, sig_name = ''greet'', parameters = [''name'']\<rparr>\<rparr>"

section \<open>Properties of \<open>main.py\<close>\<close>

subsection \<open>The loop over the inputs\<close>

lemma document_all_append:
  "document_all doc cwd out r (xs @ ys) s =
     (case document_all doc cwd out r xs s of
        (Inl e, s') \<Rightarrow> (Inl e, s')
      | (Inr u, s') \<Rightarrow> document_all doc cwd out r ys s')"
  by (induction xs arbitrary: s) (auto split: prod.splits sum.splits)

lemma document_unsupported:
  assumes "\<not> isdir (fs s) (abspath cwd file)" and "\<not> isfile (fs s) (abspath cwd file)"
  shows "document doc cwd file out r s =
           (Inl (SystemExit 1),
            print_err ''File is a special file (socket, FIFO, device file) and is unsupported'' s)"
  using assms by (simp add: document_def find_files_def)

lemma isfile_not_isdir: "isfile root p \<Longrightarrow> \<not> isdir root p"
  by (auto simp: isdir_def isfile_def split: option.splits node.splits)

lemma document_regular_raises:
  assumes "isfile (fs s) (abspath cwd file)"
    and "doc (abspath cwd file) (abspath cwd file) (fs s) = Inl e"
  shows "document doc cwd file out r s = (Inl e, s)"
  using assms isfile_not_isdir [OF assms(1)]
  by (simp add: document_def find_files_def process_file_def header_name_def)

text \<open>
  C1, as the code has it.  A failure while processing one input ends the whole run at
  that input: when the inputs \<open>pre\<close> have been processed and \<open>document\<close> fails on the
  next input \<open>bad\<close>, \<open>main\<close> ends with that exception in the state reached there, and the
  remaining inputs \<open>rest\<close> are not processed.  \<open>document\<close> fails with \<open>SystemExit(1)\<close> on
  an input that is neither a directory nor a regular file (\<open>document_unsupported\<close>), and
  with the pipeline's exception on a file on which the pipeline raises
  (\<open>document_regular_raises\<close>).
\<close>

theorem failure_aborts_run:
  assumes pre: "document_all doc cwd (map_option (abspath cwd) outp) r pre
                  (announce (map_option (abspath cwd) outp) s) = (Inr (), s1)"
    and bad: "document doc cwd bad (map_option (abspath cwd) outp) r s1 = (Inl e, s2)"
  shows "main doc cwd (pre @ bad # rest) outp r s = (Inl e, s2)"
  using pre bad by (simp add: main_def Let_def document_all_append)

theorem failure_aborts_run_witness:
  "document_all example_doc ''/src'' None False [''a.cmake''] example_state
      = (Inr (), example_state\<lparr>stdout := [''/src/a.cmake: x'', []]\<rparr>)
   \<and> \<not> isdir example_fs (abspath ''/src'' ''fifo'')
   \<and> \<not> isfile example_fs (abspath ''/src'' ''fifo'')
   \<and> main example_doc ''/src'' ([''a.cmake''] @ ''fifo'' # [''a.cmake'']) None False
        example_state
      = (Inl (SystemExit 1),
         print_err ''File is a special file (socket, FIFO, device file) and is unsupported''
           (example_state\<lparr>stdout := [''/src/a.cmake: x'', []]\<rparr>))"
proof -
  let ?s1 = "example_state\<lparr>stdout := [''/src/a.cmake: x'', []]\<rparr>"
  have pre: "document_all example_doc ''/src'' (map_option (abspath ''/src'') None) False
               [''a.cmake''] (announce (map_option (abspath ''/src'') None) example_state)
               = (Inr (), ?s1)"
    by code_simp
  have pre': "document_all example_doc ''/src'' None False [''a.cmake''] example_state
               = (Inr (), ?s1)"
    by code_simp
  have nd: "\<not> isdir (fs ?s1) (abspath ''/src'' ''fifo'')" by code_simp
  have nf: "\<not> isfile (fs ?s1) (abspath ''/src'' ''fifo'')" by code_simp
  have nd': "\<not> isdir example_fs (abspath ''/src'' ''fifo'')" by code_simp
  have nf': "\<not> isfile example_fs (abspath ''/src'' ''fifo'')" by code_simp
  have bad: "document example_doc ''/src'' ''fifo'' (map_option (abspath ''/src'') None) False ?s1
      = (Inl (SystemExit 1),
         print_err ''File is a special file (socket, FIFO, device file) and is unsupported''
           ?s1)"
    using nd nf by (rule document_unsupported)
  from failure_aborts_run [OF pre bad, of "[''a.cmake'']"] pre' nd' nf'
  show ?thesis by blast
qed

text \<open>
  C1, as the spec states it, fails.  In a run over a FIFO and then \<open>a.cmake\<close> the process
  ends with \<open>SystemExit(1)\<close> and nothing is printed for \<open>a.cmake\<close>; in a run over an empty
  file, on which the pipeline raises, and then \<open>a.cmake\<close> the exception ends the run and
  again nothing is printed for \<open>a.cmake\<close>; run alone, \<open>a.cmake\<close> is documented.
\<close>

theorem failure_isolation_counterexample:
  "fst (main example_doc ''/src'' [''fifo'', ''a.cmake''] None False example_state)
     = Inl (SystemExit 1)
   \<and> stdout (snd (main example_doc ''/src'' [''fifo'', ''a.cmake''] None False example_state))
     = []
   \<and> fst (main example_doc ''/src'' [''empty.cmake'', ''a.cmake''] None False example_state)
     = Inl PipelineError
   \<and> stdout (snd (main example_doc ''/src'' [''empty.cmake'', ''a.cmake''] None False
                    example_state))
     = []
   \<and> main example_doc ''/src'' [''a.cmake''] None False example_state
     = (Inr (), example_state\<lparr>stdout := [''/src/a.cmake: x'', []]\<rparr>)"
  by code_simp


subsection \<open>The exit status\<close>

lemma emit_agree:
  assumes "agree s t"
  shows "fst (emit cwd ip op f txt s) = fst (emit cwd ip op f txt t)
       \<and> agree (snd (emit cwd ip op f txt s)) (snd (emit cwd ip op f txt t))"
  using assms
  by (auto simp: emit_def agree_def print_def Let_def split: option.splits sum.splits prod.splits)

lemma process_file_agree:
  assumes "agree s t"
  shows "fst (process_file doc cwd ip op f s) = fst (process_file (silence doc) cwd ip op f t)
       \<and> agree (snd (process_file doc cwd ip op f s)) (snd (process_file (silence doc) cwd ip op f t))"
proof -
  have fs: "fs s = fs t" using assms by (simp add: agree_def)
  show ?thesis
  proof (cases "header_name cwd (fs t) ip f")
    case (Inl e)
    then show ?thesis using assms fs by (simp add: process_file_def)
  next
    case (Inr h)
    show ?thesis
    proof (cases "doc f h (fs t)")
      case (Inl e)
      then show ?thesis using assms fs Inr by (simp add: process_file_def silence_def)
    next
      case (Inr wt)
      obtain w out where wt: "wt = (w, out)" by (cases wt)
      have "agree (s\<lparr>stderr := stderr s @ w\<rparr>) (t\<lparr>stderr := stderr t @ []\<rparr>)"
        using assms by (simp add: agree_def)
      from emit_agree [OF this] show ?thesis
        using fs \<open>header_name cwd (fs t) ip f = Inr h\<close> Inr wt
        by (simp add: process_file_def silence_def)
    qed
  qed
qed

lemma process_files_agree:
  "agree s t \<Longrightarrow>
   fst (process_files doc cwd ip op fl s) = fst (process_files (silence doc) cwd ip op fl t)
   \<and> agree (snd (process_files doc cwd ip op fl s)) (snd (process_files (silence doc) cwd ip op fl t))"
proof (induction fl arbitrary: s t)
  case Nil
  then show ?case by simp
next
  case (Cons f fl)
  obtain r1 s1 where p1: "process_file doc cwd ip op f s = (r1, s1)" by (cases "process_file doc cwd ip op f s")
  obtain r2 t1 where p2: "process_file (silence doc) cwd ip op f t = (r2, t1)"
    by (cases "process_file (silence doc) cwd ip op f t")
  from process_file_agree [OF Cons.prems, of doc cwd ip op f] p1 p2
  have eq: "r1 = r2" and ag: "agree s1 t1" by simp_all
  show ?case
  proof (cases r1)
    case (Inl e)
    then show ?thesis using p1 p2 eq ag by simp
  next
    case (Inr u)
    then show ?thesis using p1 p2 eq Cons.IH [OF ag] by simp
  qed
qed

lemma document_agree:
  assumes "agree s t"
  shows "fst (document doc cwd f op r s) = fst (document (silence doc) cwd f op r t)
       \<and> agree (snd (document doc cwd f op r s)) (snd (document (silence doc) cwd f op r t))"
proof -
  have fs: "fs s = fs t" using assms by (simp add: agree_def)
  have ag: "agree (print_err m s) (print_err m t)" for m
    using assms by (simp add: agree_def print_err_def)
  show ?thesis
    unfolding document_def find_files_def Let_def fs
    using ag process_files_agree [OF assms, of doc cwd "abspath cwd f" op]
    by (simp del: process_files.simps)
qed

lemma document_all_agree:
  "agree s t \<Longrightarrow>
   fst (document_all doc cwd op r fl s) = fst (document_all (silence doc) cwd op r fl t)
   \<and> agree (snd (document_all doc cwd op r fl s)) (snd (document_all (silence doc) cwd op r fl t))"
proof (induction fl arbitrary: s t)
  case Nil
  then show ?case by simp
next
  case (Cons f fl)
  obtain r1 s1 where p1: "document doc cwd f op r s = (r1, s1)" by (cases "document doc cwd f op r s")
  obtain r2 t1 where p2: "document (silence doc) cwd f op r t = (r2, t1)"
    by (cases "document (silence doc) cwd f op r t")
  from document_agree [OF Cons.prems, of doc cwd f op r] p1 p2
  have eq: "r1 = r2" and ag: "agree s1 t1" by simp_all
  show ?case
  proof (cases r1)
    case (Inl e)
    then show ?thesis using p1 p2 eq ag by simp
  next
    case (Inr u)
    then show ?thesis using p1 p2 eq Cons.IH [OF ag] by simp
  qed
qed

lemma main_agree:
  "fst (main doc cwd files output r s) = fst (main (silence doc) cwd files output r s)
   \<and> agree (snd (main doc cwd files output r s)) (snd (main (silence doc) cwd files output r s))"
proof -
  have same: "agree s0 s0" for s0 by (simp add: agree_def)
  from document_all_agree [OF same] same show ?thesis
    by (simp add: main_def Let_def)
qed

lemma document_all_fails_iff:
  "(fst (document_all doc cwd op r files s) = Inl e) =
     (\<exists>pre bad rest s1. files = pre @ bad # rest
         \<and> document_all doc cwd op r pre s = (Inr (), s1)
         \<and> fst (document doc cwd bad op r s1) = Inl e)"
proof (induction files arbitrary: s)
  case Nil
  then show ?case by simp
next
  case (Cons x xs)
  obtain r1 s' where d: "document doc cwd x op r s = (r1, s')" by (cases "document doc cwd x op r s")
  show ?case
  proof (cases r1)
    case (Inl e')
    show ?thesis
    proof
      assume "fst (document_all doc cwd op r (x # xs) s) = Inl e"
      with d Inl have "e' = e" by simp
      with d Inl have "x # xs = [] @ x # xs \<and> document_all doc cwd op r [] s = (Inr (), s)
          \<and> fst (document doc cwd x op r s) = Inl e" by simp
      then show "\<exists>pre bad rest s1. x # xs = pre @ bad # rest
         \<and> document_all doc cwd op r pre s = (Inr (), s1)
         \<and> fst (document doc cwd bad op r s1) = Inl e" by blast
    next
      assume "\<exists>pre bad rest s1. x # xs = pre @ bad # rest
         \<and> document_all doc cwd op r pre s = (Inr (), s1)
         \<and> fst (document doc cwd bad op r s1) = Inl e"
      then obtain pre bad rest s1 where dec: "x # xs = pre @ bad # rest"
        and ok: "document_all doc cwd op r pre s = (Inr (), s1)"
        and bad: "fst (document doc cwd bad op r s1) = Inl e" by blast
      show "fst (document_all doc cwd op r (x # xs) s) = Inl e"
      proof (cases pre)
        case Nil
        with dec ok bad d Inl show ?thesis by simp
      next
        case (Cons p ps)
        with dec ok d Inl show ?thesis by simp
      qed
    qed
  next
    case (Inr u)
    show ?thesis
    proof
      assume "fst (document_all doc cwd op r (x # xs) s) = Inl e"
      with d Inr have "fst (document_all doc cwd op r xs s') = Inl e" by simp
      with Cons.IH obtain pre bad rest s1 where dec: "xs = pre @ bad # rest"
        and ok: "document_all doc cwd op r pre s' = (Inr (), s1)"
        and bad: "fst (document doc cwd bad op r s1) = Inl e" by blast
      from dec ok d Inr have "x # xs = (x # pre) @ bad # rest
          \<and> document_all doc cwd op r (x # pre) s = (Inr (), s1)" by simp
      with bad show "\<exists>pre bad rest s1. x # xs = pre @ bad # rest
         \<and> document_all doc cwd op r pre s = (Inr (), s1)
         \<and> fst (document doc cwd bad op r s1) = Inl e" by blast
    next
      assume "\<exists>pre bad rest s1. x # xs = pre @ bad # rest
         \<and> document_all doc cwd op r pre s = (Inr (), s1)
         \<and> fst (document doc cwd bad op r s1) = Inl e"
      then obtain pre bad rest s1 where dec: "x # xs = pre @ bad # rest"
        and ok: "document_all doc cwd op r pre s = (Inr (), s1)"
        and bad: "fst (document doc cwd bad op r s1) = Inl e" by blast
      show "fst (document_all doc cwd op r (x # xs) s) = Inl e"
      proof (cases pre)
        case Nil
        with dec bad ok d Inr show ?thesis by simp
      next
        case (Cons p ps)
        with dec have px: "p = x" and xs: "xs = ps @ bad # rest" by simp_all
        from ok Cons px d Inr have "document_all doc cwd op r ps s' = (Inr (), s1)" by simp
        with xs bad Cons.IH [of s'] have "fst (document_all doc cwd op r xs s') = Inl e" by blast
        with d Inr show ?thesis by simp
      qed
    qed
  qed
qed


lemma process_file_error:
  assumes "fst (process_file doc cwd ip op f s) = Inl e"
  shows "e = ValueError \<or> e = OSError \<or> (\<exists>f h root. doc f h root = Inl e)"
proof -
  have rp: "relpath cwd a b = Inl e' \<Longrightarrow> e' = ValueError" for a b e'
    by (auto simp: relpath_def Let_def split: if_splits)
  have hn: "header_name cwd root a b = Inl e' \<Longrightarrow> e' = ValueError" for root a b e'
    by (auto simp: header_name_def dest: rp split: if_splits)
  have ofn: "output_filename cwd root a b c = Inl e' \<Longrightarrow> e' = ValueError" for root a b c e'
    by (auto simp: output_filename_def dest: rp split: if_splits sum.splits)
  have mk: "makedirs a root = Inl e' \<Longrightarrow> e' = OSError" for a root e'
    by (auto simp: makedirs_def split: option.splits)
  have wr: "write_to_file a b root = (Inl e', root') \<Longrightarrow> e' = OSError" for a b root e' root'
    by (auto simp: write_to_file_def split: option.splits)
  have em: "fst (emit cwd ip op f out s') = Inl e \<Longrightarrow> e = ValueError \<or> e = OSError" for out s'
    by (auto simp: emit_def Let_def dest: ofn mk wr
             split: option.splits if_splits sum.splits prod.splits)
  show ?thesis
  proof (cases "header_name cwd (fs s) ip f")
    case (Inl e')
    with assms hn show ?thesis by (auto simp: process_file_def)
  next
    case (Inr h)
    show ?thesis
    proof (cases "doc f h (fs s)")
      case (Inl e')
      with assms Inr have "e' = e" by (simp add: process_file_def)
      with Inl show ?thesis by blast
    next
      case (Inr wt)
      with assms \<open>header_name cwd (fs s) ip f = Inr h\<close> em show ?thesis
        by (auto simp: process_file_def split: prod.splits)
    qed
  qed
qed

lemma process_files_error:
  "fst (process_files doc cwd ip op fl s) = Inl e \<Longrightarrow>
   e = ValueError \<or> e = OSError \<or> (\<exists>f h root. doc f h root = Inl e)"
proof (induction fl arbitrary: s)
  case Nil
  then show ?case by simp
next
  case (Cons f fl)
  obtain r1 s1 where p: "process_file doc cwd ip op f s = (r1, s1)"
    by (cases "process_file doc cwd ip op f s")
  show ?case
  proof (cases r1)
    case (Inl e')
    with p Cons.prems have "fst (process_file doc cwd ip op f s) = Inl e" by simp
    then show ?thesis by (rule process_file_error)
  next
    case (Inr u)
    with p Cons.prems have "fst (process_files doc cwd ip op fl s1) = Inl e" by simp
    then show ?thesis by (rule Cons.IH)
  qed
qed

lemma document_error:
  assumes "fst (document doc cwd f op r s) = Inl e"
  shows "e = SystemExit 1 \<or> e = ValueError \<or> e = OSError \<or> (\<exists>f h root. doc f h root = Inl e)"
  using assms process_files_error [of doc cwd "abspath cwd f" op _ s e]
  by (auto simp: document_def find_files_def Let_def simp del: process_files.simps
           split: if_splits)

lemma exit_status_own_failure:
  assumes "fst (document doc cwd f op r s) = Inl e"
  shows "exit_status (Inl e) = 1 \<or> (\<exists>f h root. doc f h root = Inl e)"
  using document_error [OF assms] by auto

text \<open>
  C4, as the code has it.  Warnings do not change the exit status: the run has the same
  status when the documenter's warnings are removed.  The run ends at the first input on
  which \<open>document\<close> fails, with the status of that failure, so it exits unsuccessfully
  exactly when no input is given (\<open>argparse\<close>) or some input fails with a status other
  than 0 after the inputs before it were documented; it does not take every input to
  fail.  The status of a failure is 1 unless the exception is one that the pipeline
  raised; for a \<open>SystemExit(n)\<close> from the pipeline it is \<open>n mod 256\<close>, which can be 0.
\<close>

theorem exit_status_of_run:
  "exit_status (fst (main doc cwd files outp r s))
     = exit_status (fst (main (silence doc) cwd files outp r s))
   \<and> ((exit_status (fst (main doc cwd files outp r s)) \<noteq> 0) =
        (files = []
         \<or> (\<exists>pre bad rest s1 e. files = pre @ bad # rest
               \<and> document_all doc cwd (map_option (abspath cwd) outp) r pre
                    (announce (map_option (abspath cwd) outp) s) = (Inr (), s1)
               \<and> fst (document doc cwd bad (map_option (abspath cwd) outp) r s1) = Inl e
               \<and> exit_status (Inl e) \<noteq> 0)))
   \<and> (\<forall>bad s1 e. fst (document doc cwd bad (map_option (abspath cwd) outp) r s1) = Inl e \<longrightarrow>
          exit_status (Inl e) = 1 \<or> (\<exists>f h root. doc f h root = Inl e))"
proof (intro conjI)
  show "exit_status (fst (main doc cwd files outp r s))
           = exit_status (fst (main (silence doc) cwd files outp r s))"
    using main_agree [of doc cwd files outp r s] by simp
next
  let ?op = "map_option (abspath cwd) outp"
  let ?s0 = "announce ?op s"
  let ?run = "fst (document_all doc cwd ?op r files ?s0)"
  let ?fails = "\<exists>pre bad rest s1 e. files = pre @ bad # rest
               \<and> document_all doc cwd ?op r pre ?s0 = (Inr (), s1)
               \<and> fst (document doc cwd bad ?op r s1) = Inl e
               \<and> exit_status (Inl e) \<noteq> 0"
  show "(exit_status (fst (main doc cwd files outp r s)) \<noteq> 0) = (files = [] \<or> ?fails)"
  proof (cases "files = []")
    case True
    then show ?thesis by (simp add: main_def)
  next
    case False
    then have main: "fst (main doc cwd files outp r s) = ?run"
      by (simp add: main_def Let_def)
    have "(exit_status ?run \<noteq> 0) = (\<exists>e. ?run = Inl e \<and> exit_status (Inl e) \<noteq> 0)"
      by (cases ?run) auto
    also have "\<dots> = ?fails"
      unfolding document_all_fails_iff by blast
    finally show ?thesis using False main by simp
  qed
next
  show "\<forall>bad s1 e. fst (document doc cwd bad (map_option (abspath cwd) outp) r s1) = Inl e \<longrightarrow>
          exit_status (Inl e) = 1 \<or> (\<exists>f h root. doc f h root = Inl e)"
    using exit_status_own_failure by blast
qed

theorem exit_status_of_run_witness:
  "exit_status (fst (main warning_doc ''/src'' [''a.cmake'', ''fifo''] None False example_state))
     = exit_status
         (fst (main (silence warning_doc) ''/src'' [''a.cmake'', ''fifo''] None False
                example_state))
   \<and> exit_status (fst (main warning_doc ''/src'' [''a.cmake'', ''fifo''] None False example_state))
     = 1
   \<and> stderr (snd (main warning_doc ''/src'' [''a.cmake'', ''fifo''] None False example_state))
     = [''warning: /src/a.cmake'',
        ''File is a special file (socket, FIFO, device file) and is unsupported'']
   \<and> stderr (snd (main (silence warning_doc) ''/src'' [''a.cmake'', ''fifo''] None False
                    example_state))
     = [''File is a special file (socket, FIFO, device file) and is unsupported'']
   \<and> document_all warning_doc ''/src'' None False [''a.cmake''] example_state
     = (Inr (), example_state\<lparr>stdout := [''/src/a.cmake: x'', []],
                                 stderr := [''warning: /src/a.cmake'']\<rparr>)
   \<and> fst (document warning_doc ''/src'' ''fifo'' None False
            (example_state\<lparr>stdout := [''/src/a.cmake: x'', []],
                            stderr := [''warning: /src/a.cmake'']\<rparr>))
     = Inl (SystemExit 1)
   \<and> exit_status (Inl (SystemExit 1)) = 1"
proof -
  let ?s1 = "example_state\<lparr>stdout := [''/src/a.cmake: x'', []],
                           stderr := [''warning: /src/a.cmake'']\<rparr>"
  have pre: "document_all warning_doc ''/src'' (map_option (abspath ''/src'') None) False
               [''a.cmake''] (announce (map_option (abspath ''/src'') None) example_state)
               = (Inr (), ?s1)"
    by code_simp
  have bad: "fst (document warning_doc ''/src'' ''fifo'' (map_option (abspath ''/src'') None)
                    False ?s1) = Inl (SystemExit 1)"
    by code_simp
  have one: "exit_status (Inl (SystemExit 1)) = 1" by simp
  have dec: "[''a.cmake'', ''fifo''] = [''a.cmake''] @ ''fifo'' # ([] :: string list)" by simp
  note run = exit_status_of_run
         [where doc = warning_doc and cwd = "''/src''" and files = "[''a.cmake'', ''fifo'']"
            and outp = None and r = False and s = example_state]
  from run have same: "exit_status
        (fst (main warning_doc ''/src'' [''a.cmake'', ''fifo''] None False example_state))
     = exit_status
         (fst (main (silence warning_doc) ''/src'' [''a.cmake'', ''fifo''] None False
                example_state))"
    by blast
  from run dec pre bad one
  have nonzero: "exit_status
        (fst (main warning_doc ''/src'' [''a.cmake'', ''fifo''] None False example_state)) \<noteq> 0"
    by (metis zero_neq_one)
  have status: "exit_status
        (fst (main warning_doc ''/src'' [''a.cmake'', ''fifo''] None False example_state)) = 1"
    by code_simp
  have err: "stderr (snd (main warning_doc ''/src'' [''a.cmake'', ''fifo''] None False
                            example_state))
     = [''warning: /src/a.cmake'',
        ''File is a special file (socket, FIFO, device file) and is unsupported'']"
    by code_simp
  have quiet: "stderr (snd (main (silence warning_doc) ''/src'' [''a.cmake'', ''fifo''] None
                              False example_state))
     = [''File is a special file (socket, FIFO, device file) and is unsupported'']"
    by code_simp
  have pre': "document_all warning_doc ''/src'' None False [''a.cmake''] example_state
     = (Inr (), ?s1)"
    by code_simp
  have bad': "fst (document warning_doc ''/src'' ''fifo'' None False ?s1) = Inl (SystemExit 1)"
    by code_simp
  from same nonzero status err quiet pre' bad' one show ?thesis by blast
qed

text \<open>
  C4, as the spec states it, fails: the run over \<open>a.cmake\<close> and a FIFO exits with status 1
  although \<open>a.cmake\<close> was documented, so not every file failed.
\<close>

theorem exit_status_counterexample:
  "exit_status (fst (main example_doc ''/src'' [''a.cmake'', ''fifo''] None False example_state))
     = 1
   \<and> document example_doc ''/src'' ''a.cmake'' None False example_state
     = (Inr (), example_state\<lparr>stdout := [''/src/a.cmake: x'', []]\<rparr>)"
  by code_simp

subsection \<open>An output path that is not a directory\<close>

text \<open>
  C9.  When \<open>output_path\<close> is given but is not an existing directory when the file is
  processed, and the pipeline returns the rendered output, then \<open>document\<close> raises
  nothing, leaves the file system as it is and does not print the rendered output: all
  it adds to standard output is the line \<open>Writing for file ...\<close> (and the pipeline's
  warnings are surfaced).
\<close>

theorem output_discarded:
  assumes nodir: "\<not> isdir (fs s) out"
    and header: "header_name cwd (fs s) input_path file = Inr h"
    and rendered: "doc file h (fs s) = Inr (warnings, rendered)"
  shows "process_file doc cwd input_path (Some out) file s
           = (Inr (), s\<lparr>stderr := stderr s @ warnings,
                        stdout := stdout s @ [''Writing for file '' @ file]\<rparr>)"
  using assms by (simp add: process_file_def emit_def print_def)


theorem output_discarded_witness:
  "\<not> isdir (fs example_state) ''/nowhere''
   \<and> header_name ''/src'' (fs example_state) ''/src/a.cmake'' ''/src/a.cmake''
       = Inr ''/src/a.cmake''
   \<and> example_doc ''/src/a.cmake'' ''/src/a.cmake'' (fs example_state)
       = Inr ([], ''/src/a.cmake: x'')
   \<and> process_file example_doc ''/src'' ''/src/a.cmake'' (Some ''/nowhere'') ''/src/a.cmake''
        example_state
       = (Inr (), example_state\<lparr>stderr := stderr example_state @ [],
            stdout := stdout example_state @ [''Writing for file '' @ ''/src/a.cmake'']\<rparr>)"
proof -
  have nodir: "\<not> isdir (fs example_state) ''/nowhere''" by code_simp
  have header: "header_name ''/src'' (fs example_state) ''/src/a.cmake'' ''/src/a.cmake''
       = Inr ''/src/a.cmake''" by code_simp
  have rendered: "example_doc ''/src/a.cmake'' ''/src/a.cmake'' (fs example_state)
       = Inr ([], ''/src/a.cmake: x'')" by code_simp
  from output_discarded [where doc = example_doc and s = example_state, OF nodir header rendered]
    nodir header rendered
  show ?thesis by blast
qed


subsection \<open>The files found in a directory\<close>

lemma split_on_nonempty: "split_on sep s \<noteq> []"
  by (induction s) (auto split: list.splits)

lemma split_on_no_sep: "sep \<notin> set s \<Longrightarrow> split_on sep s = [s]"
  by (induction s) auto

lemma split_on_last_sep:
  "sep \<notin> set b \<Longrightarrow> split_on sep (a @ sep # b) = split_on sep a @ [b]"
proof (induction a)
  case Nil
  then show ?case by (simp add: split_on_no_sep)
next
  case (Cons c cs)
  then show ?case
    using split_on_nonempty [of sep cs] by (cases "split_on sep cs") auto
qed

lemma after_last_sep:
  "sep \<notin> set b \<Longrightarrow> rev (takeWhile (\<lambda>c. c \<noteq> sep) (rev (a @ sep # b))) = b"
proof -
  assume "sep \<notin> set b"
  then have "takeWhile (\<lambda>c. c \<noteq> sep) (rev b @ sep # rev a) = rev b"
    by (subst takeWhile_append2) auto
  then show ?thesis by simp
qed





lemma reach_through_dir:
  "reach n (c # cs) m = (\<exists>es. n = Dir es \<and> (\<exists>e \<in> set es. fst e = c \<and> reach (snd e) cs m))"
  by (cases n) auto







subsection \<open>Splitting and joining\<close>

lemma before_last_sep:
  "sep \<notin> set b \<Longrightarrow> rev (tl (dropWhile (\<lambda>c. c \<noteq> sep) (rev (a @ sep # b)))) = a"
proof -
  assume "sep \<notin> set b"
  then have "dropWhile (\<lambda>c. c \<noteq> sep) (rev b @ sep # rev a) = sep # rev a"
    by (subst dropWhile_append2) auto
  then show ?thesis by simp
qed

lemma join_with_snoc:
  "xs \<noteq> [] \<Longrightarrow> join_with sep (xs @ [x]) = join_with sep xs @ sep @ x"
  by (induction sep xs rule: join_with.induct) auto

lemma join_with_split_on: "join_with [sep] (split_on sep s) = s"
proof (induction s)
  case Nil
  then show ?case by simp
next
  case (Cons c cs)
  obtain w ws where sp: "split_on sep cs = w # ws"
    using split_on_nonempty [of sep cs] by (cases "split_on sep cs") auto
  with Cons.IH have cs: "cs = join_with [sep] (w # ws)" by simp
  show ?case
  proof (cases "c = sep")
    case True
    with sp have "join_with [sep] (split_on sep (c # cs)) = sep # join_with [sep] (w # ws)"
      by simp
    with cs True show ?thesis by simp
  next
    case False
    with sp have "join_with [sep] (split_on sep (c # cs)) = join_with [sep] ((c # w) # ws)"
      by simp
    also have "\<dots> = c # join_with [sep] (w # ws)" by (cases ws) auto
    finally show ?thesis using cs by simp
  qed
qed

lemma stem_correct: "join_with ''.'' (butlast (split_on (CHR ''.'') name)) = stem name"
proof (cases "CHR ''.'' \<in> set name")
  case True
  then obtain a b where n: "name = a @ CHR ''.'' # b" and b: "CHR ''.'' \<notin> set b"
    by (auto dest: split_list_last)
  have "join_with ''.'' (butlast (split_on (CHR ''.'') name)) = join_with ''.'' (split_on (CHR ''.'') a)"
    unfolding n using split_on_last_sep [OF b, of a] by simp
  also have "\<dots> = a" by (rule join_with_split_on)
  also have "a = stem name"
    unfolding n stem_def using before_last_sep [OF b, of a] by simp
  finally show ?thesis .
next
  case False
  then show ?thesis by (simp add: split_on_no_sep stem_def)
qed

lemma rst_name_stem: "rst_name file = stem (basename file) @ ''.rst''"
  by (simp add: rst_name_def stem_correct)

lemma stem_no_dot: "CHR ''.'' \<notin> set name \<Longrightarrow> stem name = []"
  by (simp add: stem_def)

lemma stem_ext: "CHR ''.'' \<notin> set ext \<Longrightarrow> stem (pre @ ''.'' @ ext) = pre"
  using before_last_sep [of "CHR ''.''" ext pre] by (simp add: stem_def)

subsection \<open>Joined paths\<close>

lemma basename_plain: "CHR ''/'' \<notin> set name \<Longrightarrow> basename name = name"
  unfolding basename_def by (subst takeWhile_eq_all_conv [THEN iffD2]) auto

lemma basename_path_join:
  assumes "CHR ''/'' \<notin> set name"
  shows "basename (path_join a name) = name"
proof -
  have nostart: "\<not> startswith name ''/''"
    using assms by (cases name) (auto simp: startswith_def)
  have app: "basename (x @ ''/'' @ name) = name" for x
    using after_last_sep [of "CHR ''/''" name x] assms by (simp add: basename_def)
  show ?thesis
  proof (cases "a = []")
    case True
    then show ?thesis using nostart basename_plain [OF assms] by (simp add: path_join_def)
  next
    case False
    show ?thesis
    proof (cases "endswith a ''/''")
      case True
      then obtain x where "a = x @ ''/''"
        by (metis append_take_drop_id endswith_def)
      then show ?thesis using nostart True app [of x] by (simp add: path_join_def)
    next
      case e: False
      then show ?thesis using nostart False app [of a] by (simp add: path_join_def)
    qed
  qed
qed


lemma split_on_first_sep:
  "sep \<notin> set a \<Longrightarrow> split_on sep (a @ sep # b) = a # split_on sep b"
proof (induction a)
  case Nil
  then show ?case by simp
next
  case (Cons c cs)
  then show ?case by auto
qed

lemma proper_no_slash: "proper_name c \<Longrightarrow> CHR ''/'' \<notin> set c"
  by (simp add: proper_name_def)

lemma split_on_join_with:
  assumes "comps \<noteq> []" and "\<forall>c \<in> set comps. CHR ''/'' \<notin> set c"
  shows "split_on (CHR ''/'') (join_with ''/'' comps) = comps"
  using assms
proof (induction "''/''" comps rule: join_with.induct)
  case 1
  then show ?case by simp
next
  case (2 x)
  then show ?case by (simp add: split_on_no_sep)
next
  case (3 x y ys)
  then have "split_on (CHR ''/'') (join_with ''/'' (y # ys)) = y # ys" by simp
  moreover from 3 have "CHR ''/'' \<notin> set x" by simp
  ultimately show ?case
    using split_on_first_sep [of "CHR ''/''" x "join_with ''/'' (y # ys)"] by simp
qed

lemma split_on_leading:
  "split_on sep (replicate k sep @ s) = replicate k [] @ split_on sep s"
  by (induction k) auto

lemma split_on_only_seps: "split_on sep (replicate k sep) = replicate k [] @ [[]]"
  using split_on_leading [of sep k "[]"] by simp

lemma path_comps_rooted:
  assumes "\<forall>c \<in> set comps. proper_name c"
  shows "path_comps (rooted k comps) = comps"
proof (cases "comps = []")
  case True
  then show ?thesis by (simp add: path_comps_def rooted_def split_on_only_seps)
next
  case False
  have ne: "filter (\<lambda>x. x \<noteq> []) comps = comps"
    using assms by (auto simp: proper_name_def filter_id_conv)
  have "split_on (CHR ''/'') (join_with ''/'' comps) = comps"
    using False assms by (intro split_on_join_with) (auto simp: proper_name_def)
  then show ?thesis using ne by (simp add: path_comps_def rooted_def split_on_leading)
qed

lemma normpath_steps_proper:
  assumes "\<forall>c \<in> set comps. proper_name c"
  shows "foldl (normpath_step ini) acc comps = acc @ comps"
  using assms
proof (induction comps arbitrary: acc)
  case Nil
  then show ?case by simp
next
  case (Cons c cs)
  then have "normpath_step ini acc c = acc @ [c]"
    by (simp add: normpath_step_def proper_name_def)
  with Cons show ?case by simp
qed

lemma normpath_steps_empty: "foldl (normpath_step ini) acc (replicate k []) = acc"
  by (induction k) (auto simp: normpath_step_def)

lemma join_with_no_leading_slash:
  assumes "\<forall>c \<in> set comps. proper_name c"
  shows "\<not> startswith (join_with ''/'' comps) ''/''"
proof (cases comps)
  case Nil
  then show ?thesis by (simp add: startswith_def)
next
  case (Cons c cs)
  with assms obtain x xs where "c = x # xs" "x \<noteq> CHR ''/''"
    by (cases c) (auto simp: proper_name_def)
  with Cons show ?thesis by (cases cs) (auto simp: startswith_def)
qed

lemma initial_slashes_rooted:
  assumes "k = 1 \<or> k = 2" and "\<forall>c \<in> set comps. proper_name c"
  shows "initial_slashes (rooted k comps) = k"
proof -
  let ?j = "join_with ''/'' comps"
  have j: "take (Suc 0) ?j \<noteq> ''/''"
    using join_with_no_leading_slash [OF assms(2)] by (simp add: startswith_def)
  from assms(1) show ?thesis
  proof
    assume "k = 1"
    then show ?thesis using j
      by (cases ?j) (auto simp: initial_slashes_def rooted_def startswith_def)
  next
    assume "k = 2"
    then show ?thesis using j
      by (cases ?j) (auto simp: initial_slashes_def rooted_def startswith_def numeral_2_eq_2)
  qed
qed

lemma normpath_rooted:
  assumes "k = 1 \<or> k = 2" and "\<forall>c \<in> set comps. proper_name c"
  shows "normpath (rooted k comps) = rooted k comps"
proof -
  have ne: "rooted k comps \<noteq> []" using assms(1) by (auto simp: rooted_def)
  have "foldl (normpath_step k) [] (split_on (CHR ''/'') (rooted k comps)) = comps"
  proof (cases "comps = []")
    case True
    then show ?thesis
      by (simp add: rooted_def split_on_only_seps normpath_steps_empty normpath_step_def)
  next
    case False
    have "split_on (CHR ''/'') (join_with ''/'' comps) = comps"
      using False assms(2) by (intro split_on_join_with) (auto simp: proper_name_def)
    then show ?thesis
      using normpath_steps_proper [OF assms(2), of k "[]"]
      by (simp add: rooted_def split_on_leading normpath_steps_empty)
  qed
  then show ?thesis
    using ne initial_slashes_rooted [OF assms]
    by (simp add: normpath_def Let_def) (simp add: rooted_def)
qed

lemma startswith_rooted: "k = 1 \<or> k = 2 \<Longrightarrow> startswith (rooted k comps) ''/''"
  by (auto simp: rooted_def startswith_def)

lemma abspath_rooted:
  assumes "k = 1 \<or> k = 2" and "\<forall>c \<in> set comps. proper_name c"
  shows "abspath cwd (rooted k comps) = rooted k comps"
  using startswith_rooted [OF assms(1)] normpath_rooted [OF assms]
  by (simp add: abspath_def)


lemma proper_not_startswith_slash: "proper_name c \<Longrightarrow> \<not> startswith c ''/''"
  by (cases c) (auto simp: proper_name_def startswith_def)

lemma join_with_last_char:
  assumes "comps \<noteq> []" and "\<forall>c \<in> set comps. proper_name c"
  shows "join_with ''/'' comps \<noteq> [] \<and> last (join_with ''/'' comps) \<noteq> CHR ''/''"
  using assms
proof (induction "''/''" comps rule: join_with.induct)
  case 1
  then show ?case by simp
next
  case (2 x)
  then show ?case by (cases x rule: rev_cases) (auto simp: proper_name_def)
next
  case (3 x y ys)
  then show ?case by simp
qed

lemma endswith_slash: "endswith a ''/'' = (a \<noteq> [] \<and> last a = CHR ''/'')"
proof (cases a rule: rev_cases)
  case Nil
  then show ?thesis by (simp add: endswith_def)
next
  case (snoc xs x)
  then show ?thesis by (auto simp: endswith_def)
qed

lemma path_join_rooted:
  assumes "k = 1 \<or> k = 2" and "\<forall>c \<in> set comps. proper_name c" and "proper_name c"
  shows "path_join (rooted k comps) c = rooted k (comps @ [c])"
proof (cases "comps = []")
  case True
  have "endswith (rooted k []) ''/''"
    using assms(1) by (auto simp: endswith_slash rooted_def)
  then show ?thesis
    using True proper_not_startswith_slash [OF assms(3)] by (simp add: path_join_def rooted_def)
next
  case False
  from join_with_last_char [OF False assms(2)]
  have "\<not> endswith (rooted k comps) ''/''" and "rooted k comps \<noteq> []"
    by (auto simp: endswith_slash rooted_def)
  then show ?thesis
    using False proper_not_startswith_slash [OF assms(3)]
    by (simp add: path_join_def rooted_def join_with_snoc)
qed

lemma foldl_path_join_rooted:
  assumes "k = 1 \<or> k = 2"
  shows "\<forall>c \<in> set comps. proper_name c \<Longrightarrow> \<forall>c \<in> set cs. proper_name c \<Longrightarrow>
         foldl path_join (rooted k comps) cs = rooted k (comps @ cs)"
proof (induction cs arbitrary: comps)
  case Nil
  then show ?case by simp
next
  case (Cons c cs)
  then have "path_join (rooted k comps) c = rooted k (comps @ [c])"
    using path_join_rooted [OF assms] by simp
  moreover have "foldl path_join (rooted k (comps @ [c])) cs = rooted k ((comps @ [c]) @ cs)"
    using Cons by (intro Cons.IH) auto
  ultimately show ?case by simp
qed

lemma path_join_relative:
  assumes "comps \<noteq> []" and "\<forall>c \<in> set comps. proper_name c" and "proper_name c"
  shows "path_join (join_with ''/'' comps) c = join_with ''/'' (comps @ [c])"
  using join_with_last_char [OF assms(1,2)] proper_not_startswith_slash [OF assms(3)] assms(1)
  by (simp add: path_join_def endswith_slash join_with_snoc)

lemma foldl_path_join_relative:
  "comps \<noteq> [] \<Longrightarrow> \<forall>c \<in> set comps. proper_name c \<Longrightarrow> \<forall>c \<in> set cs. proper_name c \<Longrightarrow>
   foldl path_join (join_with ''/'' comps) cs = join_with ''/'' (comps @ cs)"
proof (induction cs arbitrary: comps)
  case Nil
  then show ?case by simp
next
  case (Cons c cs)
  then have "path_join (join_with ''/'' comps) c = join_with ''/'' (comps @ [c])"
    using path_join_relative by simp
  moreover have "foldl path_join (join_with ''/'' (comps @ [c])) cs
      = join_with ''/'' ((comps @ [c]) @ cs)"
    using Cons by (intro Cons.IH) auto
  ultimately show ?case by simp
qed

lemma commonprefix_append: "commonprefix xs (xs @ ys) = xs"
  by (induction xs) auto

lemma relpath_below:
  assumes k: "k = 1 \<or> k = 2" and comps: "\<forall>c \<in> set comps. proper_name c"
    and cs: "\<forall>c \<in> set cs. proper_name c" and ne: "cs \<noteq> []"
  shows "relpath cwd (rooted k (comps @ cs)) (rooted k comps) = Inr (join_with ''/'' cs)"
proof -
  have all: "\<forall>c \<in> set (comps @ cs). proper_name c" using comps cs by auto
  have nonempty: "rooted k (comps @ cs) \<noteq> []" using k by (auto simp: rooted_def)
  obtain c cs' where c: "cs = c # cs'" using ne by (cases cs) auto
  have "foldl path_join c cs' = foldl path_join (join_with ''/'' [c]) cs'" by simp
  also have "\<dots> = join_with ''/'' ([c] @ cs')"
    using cs c by (intro foldl_path_join_relative) auto
  finally have rel: "foldl path_join (hd cs) (tl cs) = join_with ''/'' cs" using c by simp
  show ?thesis
    using nonempty ne rel
    by (simp add: relpath_def Let_def abspath_rooted [OF k comps] abspath_rooted [OF k all]
          path_comps_rooted [OF comps] path_comps_rooted [OF all] commonprefix_append)
qed

lemma dirname_relative:
  assumes "\<forall>c \<in> set ds. proper_name c" and "proper_name name"
  shows "dirname (join_with ''/'' (ds @ [name])) = join_with ''/'' ds"
proof (cases "ds = []")
  case True
  have "dropWhile (\<lambda>c. c \<noteq> CHR ''/'') (rev name) = []"
    using assms(2) by (auto simp: proper_name_def)
  then show ?thesis using True by (simp add: dirname_def)
next
  case False
  let ?d = "join_with ''/'' ds"
  from join_with_last_char [OF False assms(1)]
  have d: "?d \<noteq> []" "last ?d \<noteq> CHR ''/''" by auto
  have "dropWhile (\<lambda>c. c \<noteq> CHR ''/'') (rev name @ CHR ''/'' # rev ?d) = CHR ''/'' # rev ?d"
    using assms(2) by (subst dropWhile_append2) (auto simp: proper_name_def)
  then have head: "rev (dropWhile (\<lambda>c. c \<noteq> CHR ''/'') (rev (?d @ ''/'' @ name))) = ?d @ ''/''"
    by simp
  have notall: "?d @ ''/'' \<noteq> replicate (length (?d @ ''/'')) (CHR ''/'')"
  proof
    assume "?d @ ''/'' = replicate (length (?d @ ''/'')) (CHR ''/'')"
    then have "set (?d @ ''/'') \<subseteq> {CHR ''/''}" by (metis set_replicate_conv_if empty_subsetI subset_refl)
    with d show False by (cases ?d rule: rev_cases) auto
  qed
  have strip: "rstrip_slash (?d @ ''/'') = ?d"
    using d by (cases ?d rule: rev_cases) (auto simp: rstrip_slash_def)
  show ?thesis
    using False head notall strip
    by (simp add: dirname_def Let_def join_with_snoc)
qed


lemma split_on_parts: "c \<in> set (split_on sep s) \<Longrightarrow> sep \<notin> set c"
proof (induction s arbitrary: c)
  case Nil
  then show ?case by simp
next
  case (Cons x xs)
  obtain w ws where sp: "split_on sep xs = w # ws"
    using split_on_nonempty [of sep xs] by (cases "split_on sep xs") auto
  then have w: "sep \<notin> set w" and ws: "\<And>v. v \<in> set ws \<Longrightarrow> sep \<notin> set v"
    using Cons.IH by auto
  show ?case
  proof (cases "x = sep")
    case True
    with Cons.prems sp w ws show ?thesis by auto
  next
    case False
    with Cons.prems sp have "c = x # w \<or> c \<in> set ws" by auto
    with False w ws show ?thesis by auto
  qed
qed

lemma normpath_steps_invariant:
  assumes "ini \<noteq> 0"
  shows "\<forall>c \<in> set acc. proper_name c \<Longrightarrow> \<forall>c \<in> set parts. CHR ''/'' \<notin> set c \<Longrightarrow>
         \<forall>c \<in> set (foldl (normpath_step ini) acc parts). proper_name c"
proof (induction parts arbitrary: acc)
  case Nil
  then show ?case by simp
next
  case (Cons p ps)
  have "\<forall>c \<in> set (normpath_step ini acc p). proper_name c"
  proof (cases "p = [] \<or> p = ''.''")
    case True
    with Cons.prems(1) show ?thesis by (auto simp: normpath_step_def)
  next
    case False
    show ?thesis
    proof (cases "p = ''..''")
      case True
      have "acc \<noteq> [] \<Longrightarrow> last acc \<noteq> ''..''"
        using Cons.prems(1) last_in_set [of acc] by (auto simp: proper_name_def)
      then show ?thesis
        using True assms Cons.prems(1) by (auto simp: normpath_step_def dest: in_set_butlastD)
    next
      case notdots: False
      with False Cons.prems have "proper_name p" by (simp add: proper_name_def)
      with False notdots Cons.prems(1) show ?thesis by (auto simp: normpath_step_def)
    qed
  qed
  with Cons show ?case by simp
qed

lemma normpath_is_rooted:
  assumes "startswith p ''/''"
  shows "\<exists>k comps. (k = 1 \<or> k = 2) \<and> (\<forall>c \<in> set comps. proper_name c)
           \<and> normpath p = rooted k comps"
proof -
  let ?k = "initial_slashes p"
  let ?comps = "foldl (normpath_step ?k) [] (split_on (CHR ''/'') p)"
  have k: "?k = 1 \<or> ?k = 2" using assms by (simp add: initial_slashes_def)
  have p: "p \<noteq> []" using assms by (auto simp: startswith_def)
  have "\<forall>c \<in> set ?comps. proper_name c"
    using k by (intro normpath_steps_invariant) (auto dest: split_on_parts)
  moreover have "normpath p = rooted ?k ?comps"
    using p k by (auto simp: normpath_def Let_def rooted_def)
  ultimately show ?thesis using k by blast
qed

lemma abspath_is_rooted:
  assumes "startswith cwd ''/''"
  shows "\<exists>k comps. (k = 1 \<or> k = 2) \<and> (\<forall>c \<in> set comps. proper_name c)
           \<and> abspath cwd p = rooted k comps"
proof -
  have "startswith (path_join cwd p) ''/''" if "\<not> startswith p ''/''"
    using that assms by (cases cwd) (auto simp: path_join_def startswith_def)
  then have "startswith (if startswith p ''/'' then p else path_join cwd p) ''/''"
    by simp
  from normpath_is_rooted [OF this] show ?thesis by (simp add: abspath_def)
qed

lemma dirname_rooted:
  assumes k: "k = 1 \<or> k = 2" and comps: "\<forall>c \<in> set comps. proper_name c"
    and c: "proper_name c"
  shows "dirname (rooted k (comps @ [c])) = rooted k comps"
proof -
  have nc: "CHR ''/'' \<notin> set c" using c by (simp add: proper_name_def)
  show ?thesis
  proof (cases "comps = []")
    case True
    have "dropWhile (\<lambda>x. x \<noteq> CHR ''/'') (rev c @ replicate k (CHR ''/'')) = replicate k (CHR ''/'')"
      using nc k by (subst dropWhile_append2) auto
    then have "rev (dropWhile (\<lambda>x. x \<noteq> CHR ''/'') (rev (rooted k [c]))) = replicate k (CHR ''/'')"
      by (simp add: rooted_def)
    then show ?thesis using True by (simp add: dirname_def rooted_def)
  next
    case False
    let ?d = "rooted k comps"
    from join_with_last_char [OF False comps]
    have d: "?d \<noteq> []" "last ?d \<noteq> CHR ''/''" by (auto simp: rooted_def)
    have r: "rooted k (comps @ [c]) = ?d @ ''/'' @ c"
      using False by (simp add: rooted_def join_with_snoc)
    have "dropWhile (\<lambda>x. x \<noteq> CHR ''/'') (rev c @ CHR ''/'' # rev ?d) = CHR ''/'' # rev ?d"
      using nc by (subst dropWhile_append2) auto
    then have head: "rev (dropWhile (\<lambda>x. x \<noteq> CHR ''/'') (rev (?d @ ''/'' @ c))) = ?d @ ''/''"
      by simp
    have notall: "?d @ ''/'' \<noteq> replicate (length (?d @ ''/'')) (CHR ''/'')"
    proof
      assume "?d @ ''/'' = replicate (length (?d @ ''/'')) (CHR ''/'')"
      then have "set (?d @ ''/'') \<subseteq> {CHR ''/''}"
        by (metis set_replicate_conv_if empty_subsetI subset_refl)
      with d show False by (cases ?d rule: rev_cases) auto
    qed
    have strip: "rstrip_slash (?d @ ''/'') = ?d"
      using d by (cases ?d rule: rev_cases) (auto simp: rstrip_slash_def)
    show ?thesis
      unfolding r using head notall strip by (simp add: dirname_def Let_def)
  qed
qed


subsection \<open>Creating directories\<close>

lemma map_of_update: "map_of (AList.update k v es) = (map_of es)(k \<mapsto> v)"
  by (rule AList.update_conv')

lemma mkdirs_is_dir: "mkdirs n cs = Some n' \<Longrightarrow> is_dir_node n \<and> is_dir_node n'"
  by (cases n; cases cs) (auto split: option.splits)

lemma mkdirs_creates:
  "mkdirs n cs = Some n' \<Longrightarrow> \<exists>es. resolve n' (take i cs) = Some (Dir es)"
proof (induction n cs arbitrary: n' i rule: mkdirs.induct)
  case (1 es)
  then show ?case by auto
next
  case (2 es c cs)
  let ?ch = "case map_of es c of None \<Rightarrow> Dir [] | Some ch \<Rightarrow> ch"
  from "2.prems" obtain d where d: "mkdirs ?ch cs = Some d"
    and n': "n' = Dir (AList.update c d es)"
    by (auto split: option.splits)
  show ?case
  proof (cases i)
    case 0
    with n' show ?thesis by simp
  next
    case (Suc j)
    from "2.IH" [OF d, of j] obtain es' where "resolve d (take j cs) = Some (Dir es')" by blast
    with n' Suc show ?thesis by (simp add: map_of_update)
  qed
qed simp_all

lemma mkdirs_fails:
  "(mkdirs n cs = None) =
     (\<exists>i \<le> length cs. \<exists>m. resolve n (take i cs) = Some m \<and> \<not> is_dir_node m)"
proof (induction n cs rule: mkdirs.induct)
  case (1 es)
  then show ?case by simp
next
  case (2 es c cs)
  let ?ch = "case map_of es c of None \<Rightarrow> Dir [] | Some ch \<Rightarrow> ch"
  have fresh: "\<not> (\<exists>i \<le> length cs. \<exists>m. resolve (Dir []) (take i cs) = Some m \<and> \<not> is_dir_node m)"
  proof
    assume "\<exists>i \<le> length cs. \<exists>m. resolve (Dir []) (take i cs) = Some m \<and> \<not> is_dir_node m"
    then obtain i m where "resolve (Dir []) (take i cs) = Some m" "\<not> is_dir_node m" by blast
    then show False by (cases "take i cs") auto
  qed
  have "(mkdirs (Dir es) (c # cs) = None) = (mkdirs ?ch cs = None)"
    by (auto split: option.splits)
  also have "\<dots> = (\<exists>i \<le> length cs. \<exists>m. resolve ?ch (take i cs) = Some m \<and> \<not> is_dir_node m)"
    by (rule "2.IH")
  also have "\<dots> = (\<exists>i \<le> length (c # cs). \<exists>m. resolve (Dir es) (take i (c # cs)) = Some m
                        \<and> \<not> is_dir_node m)"
    (is "?L = ?R")
  proof
    assume ?L
    then obtain i m where i: "i \<le> length cs" and r: "resolve ?ch (take i cs) = Some m"
      and m: "\<not> is_dir_node m" by blast
    from fresh i r m obtain ch where "map_of es c = Some ch"
      by (cases "map_of es c") auto
    with r have "resolve (Dir es) (take (Suc i) (c # cs)) = Some m" by simp
    with i m show ?R by (intro exI [of _ "Suc i"]) auto
  next
    assume ?R
    then obtain i m where i: "i \<le> length (c # cs)"
      and r: "resolve (Dir es) (take i (c # cs)) = Some m" and m: "\<not> is_dir_node m" by blast
    from r m obtain j where j: "i = Suc j" by (cases i) auto
    with r obtain ch where "map_of es c = Some ch" "resolve ch (take j cs) = Some m"
      by (auto split: option.splits)
    with i j m show ?L by (intro exI [of _ j]) auto
  qed
  finally show ?case .
qed (auto intro!: exI [of _ 0])

lemma mkdirs_keeps:
  "mkdirs n cs = Some n' \<Longrightarrow> resolve n p = Some m \<Longrightarrow> \<not> is_dir_node m \<Longrightarrow>
   resolve n' p = Some m"
proof (induction n cs arbitrary: n' p rule: mkdirs.induct)
  case (1 es)
  then show ?case by simp
next
  case (2 es c cs)
  let ?ch = "case map_of es c of None \<Rightarrow> Dir [] | Some ch \<Rightarrow> ch"
  from "2.prems" obtain d where d: "mkdirs ?ch cs = Some d"
    and n': "n' = Dir (AList.update c d es)"
    by (auto split: option.splits)
  from "2.prems"(2,3) obtain q qs where p: "p = q # qs" by (cases p) auto
  with "2.prems"(2) obtain ch where ch: "map_of es q = Some ch" "resolve ch qs = Some m"
    by (auto split: option.splits)
  show ?case
  proof (cases "q = c")
    case True
    with ch d have "resolve d qs = Some m" using "2.IH" [OF _ _ "2.prems"(3)] by simp
    with True p n' show ?thesis by (simp add: map_of_update)
  next
    case False
    with p n' ch show ?thesis by (simp add: map_of_update)
  qed
qed simp_all


lemma resolve_append:
  "resolve n (xs @ ys) = (case resolve n xs of None \<Rightarrow> None | Some m \<Rightarrow> resolve m ys)"
proof (induction n xs rule: resolve.induct)
  case (1 n)
  then show ?case by simp
next
  case (2 es c cs)
  then show ?case by (cases "map_of es c") auto
qed simp_all

lemma resolve_prefix_is_dir:
  assumes "resolve n xs = Some (Dir es)" and "i \<le> length xs" and "resolve n (take i xs) = Some m"
  shows "is_dir_node m"
proof (cases "i = length xs")
  case True
  with assms show ?thesis by auto
next
  case False
  with assms(2) have "drop i xs \<noteq> []" by simp
  then obtain y ys where d: "drop i xs = y # ys" by (cases "drop i xs") auto
  have "resolve n (take i xs @ drop i xs) = resolve m (y # ys)"
    unfolding resolve_append using assms(3) d by simp
  with assms(1) have "resolve m (y # ys) = Some (Dir es)" by simp
  then show ?thesis by (cases m) auto
qed

subsection \<open>The name of the output file\<close>

lemma set_stem: "set (stem name) \<subseteq> set name"
proof (cases "CHR ''.'' \<in> set name")
  case True
  then obtain a b where n: "name = a @ CHR ''.'' # b" and b: "CHR ''.'' \<notin> set b"
    by (auto dest: split_list_last)
  have "stem name = a"
    unfolding n using stem_ext [OF b, of a] by simp
  with n show ?thesis by auto
next
  case False
  then show ?thesis by (simp add: stem_def)
qed

lemma proper_rst:
  assumes "CHR ''/'' \<notin> set name"
  shows "proper_name (stem name @ ''.rst'')"
proof -
  have "CHR ''/'' \<notin> set (stem name)" using assms set_stem by blast
  moreover have "stem name @ ''.rst'' \<noteq> ''.''" "stem name @ ''.rst'' \<noteq> ''..''"
    by (auto dest: arg_cong [where f = length])
  ultimately show ?thesis by (simp add: proper_name_def)
qed

lemma basename_no_slash: "CHR ''/'' \<notin> set (basename p)"
  unfolding basename_def by (auto dest: set_takeWhileD)

lemma join_with_append:
  "xs \<noteq> [] \<Longrightarrow> ys \<noteq> [] \<Longrightarrow>
   join_with sep (xs @ ys) = join_with sep xs @ sep @ join_with sep ys"
proof (induction sep xs rule: join_with.induct)
  case (1 sep)
  then show ?case by simp
next
  case (2 sep x)
  then show ?case by (cases ys) auto
next
  case (3 sep x y zs)
  then show ?case by simp
qed

lemma path_join_rooted_relative:
  assumes k: "k = 1 \<or> k = 2" and comps: "\<forall>c \<in> set comps. proper_name c"
    and cs: "\<forall>c \<in> set cs. proper_name c" and ne: "cs \<noteq> []"
  shows "path_join (rooted k comps) (join_with ''/'' cs) = rooted k (comps @ cs)"
proof (cases "comps = []")
  case True
  have "endswith (rooted k []) ''/''"
    using k by (auto simp: endswith_slash rooted_def)
  then show ?thesis
    using True join_with_no_leading_slash [OF cs] by (simp add: path_join_def rooted_def)
next
  case False
  from join_with_last_char [OF False comps]
  have "\<not> endswith (rooted k comps) ''/''" and "rooted k comps \<noteq> []"
    by (auto simp: endswith_slash rooted_def)
  then show ?thesis
    using False ne join_with_no_leading_slash [OF cs]
    by (simp add: path_join_def rooted_def join_with_append)
qed

lemma lookup_rooted:
  "\<forall>c \<in> set comps. proper_name c \<Longrightarrow> lookup root (rooted k comps) = resolve root comps"
  by (simp add: lookup_def path_comps_rooted)


lemma output_filename_below:
  assumes k: "k = 1 \<or> k = 2" and comps: "\<forall>c \<in> set comps. proper_name c"
    and k': "k' = 1 \<or> k' = 2" and ocomps: "\<forall>c \<in> set ocomps. proper_name c"
    and names: "\<forall>c \<in> set (ds @ [name]). proper_name c"
    and dir: "isdir root (rooted k comps)"
  shows "output_filename cwd root (rooted k comps) (rooted k' ocomps)
           (foldl path_join (rooted k comps) (ds @ [name]))
         = Inr (rooted k' (ocomps @ ds @ [stem name @ ''.rst'']))"
proof -
  let ?file = "foldl path_join (rooted k comps) (ds @ [name])"
  let ?rst = "stem name @ ''.rst''"
  have ds: "\<forall>c \<in> set ds. proper_name c" and name: "proper_name name" using names by auto
  have noslash: "CHR ''/'' \<notin> set name" using name by (simp add: proper_name_def)
  have rst: "proper_name ?rst" using noslash by (rule proper_rst)
  have fr: "?file = rooted k (comps @ ds @ [name])"
    using foldl_path_join_rooted [OF k comps names] .
  have rel: "relpath cwd ?file (rooted k comps) = Inr (join_with ''/'' (ds @ [name]))"
    unfolding fr using relpath_below [OF k comps names] by simp
  have "?file = path_join (foldl path_join (rooted k comps) ds) name" by simp
  then have base: "basename ?file = name"
    using basename_path_join [OF noslash] by simp
  have dn: "dirname (join_with ''/'' (ds @ [name])) = join_with ''/'' ds"
    using dirname_relative [OF ds name] .
  have "path_join (rooted k' ocomps) (path_join (join_with ''/'' ds) ?rst)
          = rooted k' (ocomps @ ds @ [?rst])"
  proof (cases "ds = []")
    case True
    have "path_join [] ?rst = ?rst"
      using proper_not_startswith_slash [OF rst] by (simp add: path_join_def)
    then show ?thesis
      using True path_join_rooted [OF k' ocomps rst] by simp
  next
    case False
    have "path_join (join_with ''/'' ds) ?rst = join_with ''/'' (ds @ [?rst])"
      using path_join_relative [OF False ds rst] .
    moreover have "path_join (rooted k' ocomps) (join_with ''/'' (ds @ [?rst]))
        = rooted k' (ocomps @ ds @ [?rst])"
      using ds rst by (intro path_join_rooted_relative [OF k' ocomps]) auto
    ultimately show ?thesis by simp
  qed
  then show ?thesis
    using dir rel dn base by (simp add: output_filename_def rst_name_stem)
qed

text \<open>
  C10.  Let the output path be an existing directory.  The output file is named by
  joining the output path, the directories \<open>ds\<close> that lead from the input directory to
  the file (none when the input was a file), and the file's basename with its part from
  the last dot on removed and \<open>.rst\<close> appended; a basename without a dot gives \<open>.rst\<close>.
  \<open>document\<close> prints two lines, has \<open>os.makedirs\<close> create the directory of that name and
  only then writes.  When \<open>os.makedirs\<close> returns, every directory on the way exists; it
  fails exactly when one of them exists and is not a directory.
\<close>

theorem output_file_location:
  assumes cwd: "startswith cwd ''/''"
    and ip: "input_path = abspath cwd arg"
    and out: "out = abspath cwd output_arg"
    and outdir: "isdir (fs s) out"
    and found: "if isdir (fs s) input_path
               then file = foldl path_join input_path (ds @ [name])
                    \<and> (\<forall>c \<in> set (ds @ [name]). proper_name c)
               else file = input_path \<and> ds = [] \<and> name = basename input_path"
    and ofn: "ofn = foldl path_join out (ds @ [stem name @ ''.rst''])"
  shows "output_filename cwd (fs s) input_path out file = Inr ofn
       \<and> (CHR ''.'' \<notin> set name \<longrightarrow> ofn = foldl path_join out (ds @ [''.rst'']))
       \<and> (\<forall>pre ext. name = pre @ ''.'' @ ext \<and> CHR ''.'' \<notin> set ext \<longrightarrow>
             ofn = foldl path_join out (ds @ [pre @ ''.rst'']))
       \<and> dirname ofn = foldl path_join out ds
       \<and> emit cwd input_path (Some out) file rendered s =
           (let s2 = print (''Writing RST file '' @ ofn) (print (''Writing for file '' @ file) s)
            in case makedirs (dirname ofn) (fs s) of
                 Inl e \<Rightarrow> (Inl e, s2)
               | Inr root1 \<Rightarrow>
                   (case write_to_file rendered ofn root1 of
                      (Inl e, root2) \<Rightarrow> (Inl e, s2\<lparr>fs := root2\<rparr>)
                    | (Inr _, root2) \<Rightarrow> (Inr (), s2\<lparr>fs := root2\<rparr>)))
       \<and> (\<forall>root1. makedirs (dirname ofn) (fs s) = Inr root1 \<longrightarrow>
             (\<forall>i \<le> length ds. isdir root1 (foldl path_join out (take i ds))))
       \<and> ((\<exists>e. makedirs (dirname ofn) (fs s) = Inl e) \<longleftrightarrow>
             (\<exists>i \<le> length ds. \<exists>m. lookup (fs s) (foldl path_join out (take i ds)) = Some m
                 \<and> \<not> is_dir_node m))"
proof -
  let ?rst = "stem name @ ''.rst''"
  from abspath_is_rooted [OF cwd, of arg] ip obtain k comps
    where k: "k = 1 \<or> k = 2" and comps: "\<forall>c \<in> set comps. proper_name c"
      and ipr: "input_path = rooted k comps" by auto
  from abspath_is_rooted [OF cwd, of output_arg] out obtain k' ocomps
    where k': "k' = 1 \<or> k' = 2" and ocomps: "\<forall>c \<in> set ocomps. proper_name c"
      and outr: "out = rooted k' ocomps" by auto
  have noslash: "CHR ''/'' \<notin> set name"
    using found basename_no_slash [of input_path] by (auto simp: proper_name_def split: if_splits)
  have rst: "proper_name ?rst" using noslash by (rule proper_rst)
  have ds: "\<forall>c \<in> set ds. proper_name c" using found by (auto split: if_splits)
  have sub: "foldl path_join out (take i ds) = rooted k' (ocomps @ take i ds)" for i
    unfolding outr using ds by (intro foldl_path_join_rooted [OF k' ocomps]) (auto dest: in_set_takeD)
  have ofn_rooted: "ofn = rooted k' (ocomps @ ds @ [?rst])"
    unfolding ofn outr using ds rst by (intro foldl_path_join_rooted [OF k' ocomps]) auto
  have name1: "output_filename cwd (fs s) input_path out file = Inr ofn"
  proof (cases "isdir (fs s) input_path")
    case True
    with found have f: "file = foldl path_join (rooted k comps) (ds @ [name])"
      and names: "\<forall>c \<in> set (ds @ [name]). proper_name c" by (simp_all add: ipr)
    from True have "isdir (fs s) (rooted k comps)" by (simp add: ipr)
    from output_filename_below [OF k comps k' ocomps names this, of cwd]
    show ?thesis unfolding f ipr outr ofn_rooted .
  next
    case False
    with found have "file = input_path" "ds = []" "name = basename file" by simp_all
    with False show ?thesis
      by (simp add: output_filename_def rst_name_stem ofn)
  qed
  have name2: "CHR ''.'' \<notin> set name \<longrightarrow> ofn = foldl path_join out (ds @ [''.rst''])"
    by (simp add: ofn stem_no_dot)
  have name3: "\<forall>pre ext. name = pre @ ''.'' @ ext \<and> CHR ''.'' \<notin> set ext \<longrightarrow>
             ofn = foldl path_join out (ds @ [pre @ ''.rst''])"
    using stem_ext by (auto simp: ofn)
  have "dirname ofn = rooted k' (ocomps @ ds)"
    unfolding ofn_rooted using dirname_rooted [OF k' _ rst, of "ocomps @ ds"] ocomps ds by auto
  then have dn_rooted: "dirname ofn = rooted k' (ocomps @ ds)" .
  have dn: "dirname ofn = foldl path_join out ds"
    using dn_rooted sub [of "length ds"] by simp
  have em: "emit cwd input_path (Some out) file rendered s =
           (let s2 = print (''Writing RST file '' @ ofn) (print (''Writing for file '' @ file) s)
            in case makedirs (dirname ofn) (fs s) of
                 Inl e \<Rightarrow> (Inl e, s2)
               | Inr root1 \<Rightarrow>
                   (case write_to_file rendered ofn root1 of
                      (Inl e, root2) \<Rightarrow> (Inl e, s2\<lparr>fs := root2\<rparr>)
                    | (Inr _, root2) \<Rightarrow> (Inr (), s2\<lparr>fs := root2\<rparr>)))"
    using outdir name1 by (simp add: emit_def print_def Let_def)
  have all: "\<forall>c \<in> set (ocomps @ ds). proper_name c" using ocomps ds by auto
  have mk: "makedirs (dirname ofn) root =
              (case mkdirs root (ocomps @ ds) of None \<Rightarrow> Inl OSError | Some r \<Rightarrow> Inr r)" for root
    unfolding dn_rooted makedirs_def path_comps_rooted [OF all] ..
  have created: "\<forall>root1. makedirs (dirname ofn) (fs s) = Inr root1 \<longrightarrow>
             (\<forall>i \<le> length ds. isdir root1 (foldl path_join out (take i ds)))"
  proof (intro allI impI)
    fix root1 i
    assume "makedirs (dirname ofn) (fs s) = Inr root1" and i: "i \<le> length ds"
    then have "mkdirs (fs s) (ocomps @ ds) = Some root1"
      by (auto simp: mk split: option.splits)
    from mkdirs_creates [OF this, of "length ocomps + i"]
    obtain es where "resolve root1 (ocomps @ take i ds) = Some (Dir es)" by auto
    moreover have "\<forall>c \<in> set (ocomps @ take i ds). proper_name c"
      using ocomps ds by (auto dest: in_set_takeD)
    ultimately show "isdir root1 (foldl path_join out (take i ds))"
      unfolding sub by (simp add: isdir_def lookup_rooted)
  qed
  from outdir obtain oes where oes: "resolve (fs s) ocomps = Some (Dir oes)"
    unfolding outr by (auto simp: isdir_def lookup_rooted [OF ocomps] split: option.splits node.splits)
  have fails: "(\<exists>e. makedirs (dirname ofn) (fs s) = Inl e) \<longleftrightarrow>
             (\<exists>i \<le> length ds. \<exists>m. lookup (fs s) (foldl path_join out (take i ds)) = Some m
                 \<and> \<not> is_dir_node m)" (is "?L = ?R")
  proof
    assume ?L
    then have "mkdirs (fs s) (ocomps @ ds) = None" by (auto simp: mk split: option.splits)
    then obtain j m where j: "j \<le> length (ocomps @ ds)"
      and r: "resolve (fs s) (take j (ocomps @ ds)) = Some m" and m: "\<not> is_dir_node m"
      unfolding mkdirs_fails by blast
    have "\<not> j \<le> length ocomps"
    proof
      assume le: "j \<le> length ocomps"
      with r have "resolve (fs s) (take j ocomps) = Some m" by simp
      from resolve_prefix_is_dir [OF oes le this] m show False by simp
    qed
    then obtain i where i: "j = length ocomps + i" by (metis nat_le_iff_add nat_le_linear)
    with r have "resolve (fs s) (ocomps @ take i ds) = Some m" by simp
    moreover have "\<forall>c \<in> set (ocomps @ take i ds). proper_name c"
      using ocomps ds by (auto dest: in_set_takeD)
    ultimately have "lookup (fs s) (foldl path_join out (take i ds)) = Some m"
      unfolding sub by (simp add: lookup_rooted)
    with i j m show ?R by (intro exI [of _ i]) auto
  next
    assume ?R
    then obtain i m where i: "i \<le> length ds"
      and l: "lookup (fs s) (foldl path_join out (take i ds)) = Some m"
      and m: "\<not> is_dir_node m" by blast
    have "\<forall>c \<in> set (ocomps @ take i ds). proper_name c"
      using ocomps ds by (auto dest: in_set_takeD)
    with l have "resolve (fs s) (take (length ocomps + i) (ocomps @ ds)) = Some m"
      unfolding sub by (simp add: lookup_rooted)
    with i m have "mkdirs (fs s) (ocomps @ ds) = None"
      unfolding mkdirs_fails by (intro exI [of _ "length ocomps + i"]) auto
    then show ?L by (simp add: mk)
  qed
  from name1 name2 name3 dn em created fails show ?thesis by blast
qed


theorem output_file_location_witness:
  "startswith ''/'' ''/''
   \<and> isdir (fs example_state) (abspath ''/'' ''out'')
   \<and> isdir (fs example_state) (abspath ''/'' ''src'')
   \<and> ''/src/sub/b.CMake'' = foldl path_join (abspath ''/'' ''src'') ([''sub''] @ [''b.CMake''])
   \<and> proper_name ''sub'' \<and> proper_name ''b.CMake''
   \<and> output_filename ''/'' (fs example_state) (abspath ''/'' ''src'') (abspath ''/'' ''out'')
         ''/src/sub/b.CMake'' = Inr ''/out/sub/b.rst''
   \<and> dirname ''/out/sub/b.rst'' = foldl path_join (abspath ''/'' ''out'') [''sub'']"
proof -
  have cwd: "startswith ''/'' ''/''" by code_simp
  have outdir: "isdir (fs example_state) (abspath ''/'' ''out'')" by code_simp
  have indir: "isdir (fs example_state) (abspath ''/'' ''src'')" by code_simp
  have f: "''/src/sub/b.CMake'' = foldl path_join (abspath ''/'' ''src'') ([''sub''] @ [''b.CMake''])"
    by code_simp
  have p: "proper_name ''sub''" "proper_name ''b.CMake''" by (simp_all add: proper_name_def)
  have found: "if isdir (fs example_state) (abspath ''/'' ''src'')
      then ''/src/sub/b.CMake'' = foldl path_join (abspath ''/'' ''src'') ([''sub''] @ [''b.CMake''])
           \<and> (\<forall>c \<in> set ([''sub''] @ [''b.CMake'']). proper_name c)
      else ''/src/sub/b.CMake'' = abspath ''/'' ''src'' \<and> [''sub''] = []
           \<and> ''b.CMake'' = basename (abspath ''/'' ''src'')"
    using indir f p by simp
  have ofn: "''/out/sub/b.rst''
      = foldl path_join (abspath ''/'' ''out'') ([''sub''] @ [stem ''b.CMake'' @ ''.rst''])"
    by code_simp
  from output_file_location [OF cwd refl refl outdir found ofn]
  have "output_filename ''/'' (fs example_state) (abspath ''/'' ''src'') (abspath ''/'' ''out'')
         ''/src/sub/b.CMake'' = Inr ''/out/sub/b.rst''"
    and "dirname ''/out/sub/b.rst'' = foldl path_join (abspath ''/'' ''out'') [''sub'']"
    by blast+
  with cwd outdir indir f p show ?thesis by blast
qed


section \<open>Properties of the persistence operation\<close>

lemma put_file_written: "put_file n cs body = Some n' \<Longrightarrow> resolve n' cs = Some (File body)"
proof (induction n cs body arbitrary: n' rule: put_file.induct)
  case (1 es c body)
  then show ?case by (auto simp: map_of_update split: option.splits node.splits)
next
  case (2 es c v va body)
  then show ?case by (auto simp: map_of_update split: option.splits)
qed simp_all

lemma put_file_frame:
  "put_file n cs body = Some n' \<Longrightarrow> take (length q) cs \<noteq> q \<Longrightarrow> resolve n' q = resolve n q"
proof (induction n cs body arbitrary: n' q rule: put_file.induct)
  case (1 es c body)
  from "1.prems"(2) obtain x xs where q: "q = x # xs" by (cases q) auto
  from "1.prems"(1) have n': "n' = Dir (AList.update c (File body) es)"
    and old: "map_of es c = None \<or> (\<exists>v. map_of es c = Some (File v))"
    by (auto split: option.splits node.splits)
  show ?case
  proof (cases "x = c")
    case True
    with q "1.prems"(2) obtain y ys where "xs = y # ys" by (cases xs) auto
    with True q n' old show ?thesis by (auto simp: map_of_update)
  next
    case False
    with q n' show ?thesis by (simp add: map_of_update)
  qed
next
  case (2 es c v va body)
  from "2.prems"(2) obtain x xs where q: "q = x # xs" by (cases q) auto
  from "2.prems"(1) obtain ch d where ch: "map_of es c = Some ch"
    and d: "put_file ch (v # va) body = Some d" and n': "n' = Dir (AList.update c d es)"
    by (auto split: option.splits)
  show ?case
  proof (cases "x = c")
    case True
    with q "2.prems"(2) have "take (length xs) (v # va) \<noteq> xs" by simp
    from "2.IH" [OF ch d this] True q n' ch show ?thesis by (simp add: map_of_update)
  next
    case False
    with q n' show ?thesis by (simp add: map_of_update)
  qed
qed simp_all

lemma resolve_from_non_dir: "\<not> is_dir_node n \<Longrightarrow> resolve n ys = Some m \<Longrightarrow> m = n"
  by (cases n; cases ys) auto

lemma resolve_file_not_dir: "resolve (File v) ys \<noteq> Some (Dir es)"
  using resolve_from_non_dir [of "File v" ys "Dir es"] by auto

lemma resolve_special_not_dir: "resolve Special ys \<noteq> Some (Dir es)"
  using resolve_from_non_dir [of Special ys "Dir es"] by auto

lemma put_file_succeeds:
  "(\<exists>n'. put_file n cs body = Some n') =
     (cs \<noteq> [] \<and> (\<exists>es. resolve n (butlast cs) = Some (Dir es))
        \<and> (resolve n cs = None \<or> (\<exists>v. resolve n cs = Some (File v))))"
proof (induction n cs body rule: put_file.induct)
  case (1 es c body)
  then show ?case by (auto split: option.splits node.splits)
next
  case (2 es c v va body)
  show ?case
  proof (cases "map_of es c")
    case None
    then show ?thesis by simp
  next
    case (Some ch)
    have "(\<exists>n'. put_file (Dir es) (c # v # va) body = Some n') = (\<exists>d. put_file ch (v # va) body = Some d)"
      using Some by (auto split: option.splits)
    also note "2.IH" [OF Some]
    finally show ?thesis using Some by simp
  qed
qed (simp_all add: resolve_file_not_dir resolve_special_not_dir)


text \<open>
  C2, for the persistence operation as the spec describes it.  Writing either succeeds,
  and then the path holds a regular file with exactly the text and every path that does
  not lead to it resolves as before; or it fails, and then the file system is the one
  before.  It succeeds exactly when the path names a place in an existing directory
  that is free or holds a regular file; in particular it fails, changing nothing, when
  the directory of the path does not exist.
\<close>

theorem write_all_or_nothing:
  "(case write_to_file rendered name root of
      (Inr u, root') \<Rightarrow>
        lookup root' name = Some (File rendered)
        \<and> (\<forall>q. take (length q) (path_comps name) \<noteq> q \<longrightarrow> resolve root' q = resolve root q)
    | (Inl e, root') \<Rightarrow> root' = root)
   \<and> ((\<exists>root'. write_to_file rendered name root = (Inr (), root')) \<longleftrightarrow>
        (path_comps name \<noteq> []
         \<and> (\<exists>es. resolve root (butlast (path_comps name)) = Some (Dir es))
         \<and> (lookup root name = None \<or> (\<exists>v. lookup root name = Some (File v)))))
   \<and> (\<not> (\<exists>es. resolve root (butlast (path_comps name)) = Some (Dir es)) \<longrightarrow>
        write_to_file rendered name root = (Inl OSError, root))"
proof -
  let ?cs = "path_comps name"
  have ok: "(\<exists>n'. put_file root ?cs rendered = Some n') =
     (?cs \<noteq> [] \<and> (\<exists>es. resolve root (butlast ?cs) = Some (Dir es))
        \<and> (resolve root ?cs = None \<or> (\<exists>v. resolve root ?cs = Some (File v))))"
    by (rule put_file_succeeds)
  have first: "case write_to_file rendered name root of
      (Inr u, root') \<Rightarrow>
        lookup root' name = Some (File rendered)
        \<and> (\<forall>q. take (length q) ?cs \<noteq> q \<longrightarrow> resolve root' q = resolve root q)
    | (Inl e, root') \<Rightarrow> root' = root"
  proof (cases "put_file root ?cs rendered")
    case None
    then show ?thesis by (simp add: write_to_file_def)
  next
    case (Some n')
    from put_file_written [OF Some] put_file_frame [OF Some] Some
    show ?thesis by (simp add: write_to_file_def lookup_def)
  qed
  have second: "(\<exists>root'. write_to_file rendered name root = (Inr (), root')) \<longleftrightarrow>
        (?cs \<noteq> [] \<and> (\<exists>es. resolve root (butlast ?cs) = Some (Dir es))
         \<and> (lookup root name = None \<or> (\<exists>v. lookup root name = Some (File v))))"
    unfolding lookup_def ok [symmetric] by (auto simp: write_to_file_def split: option.splits)
  have third: "\<not> (\<exists>es. resolve root (butlast ?cs) = Some (Dir es)) \<longrightarrow>
        write_to_file rendered name root = (Inl OSError, root)"
  proof
    assume "\<not> (\<exists>es. resolve root (butlast ?cs) = Some (Dir es))"
    with ok have "put_file root ?cs rendered = None"
      by (cases "put_file root ?cs rendered") auto
    then show "write_to_file rendered name root = (Inl OSError, root)"
      by (simp add: write_to_file_def)
  qed
  from first second third show ?thesis by blast
qed

theorem write_all_or_nothing_witness:
  "write_to_file ''doc'' ''/nowhere/a.rst'' example_fs = (Inl OSError, example_fs)
   \<and> resolve example_fs (butlast (path_comps ''/nowhere/a.rst'')) = None
   \<and> lookup (snd (write_to_file ''doc'' ''/out/a.rst'' example_fs)) ''/out/a.rst''
       = Some (File ''doc'')
   \<and> resolve example_fs (butlast (path_comps ''/out/a.rst'')) = Some (Dir [])
   \<and> lookup example_fs ''/out/a.rst'' = None"
proof -
  have nowhere: "resolve example_fs (butlast (path_comps ''/nowhere/a.rst'')) = None"
    by code_simp
  then have "\<not> (\<exists>es. resolve example_fs (butlast (path_comps ''/nowhere/a.rst''))
                      = Some (Dir es))"
    by simp
  with write_all_or_nothing
         [where rendered = "''doc''" and name = "''/nowhere/a.rst''" and root = example_fs]
  have fails: "write_to_file ''doc'' ''/nowhere/a.rst'' example_fs = (Inl OSError, example_fs)"
    by blast
  have comps: "path_comps ''/out/a.rst'' \<noteq> []" by code_simp
  have dir: "resolve example_fs (butlast (path_comps ''/out/a.rst'')) = Some (Dir [])"
    by code_simp
  have free: "lookup example_fs ''/out/a.rst'' = None" by code_simp
  from comps dir free write_all_or_nothing
         [where rendered = "''doc''" and name = "''/out/a.rst''" and root = example_fs]
  obtain root' where w: "write_to_file ''doc'' ''/out/a.rst'' example_fs = (Inr (), root')"
    by blast
  with write_all_or_nothing
         [where rendered = "''doc''" and name = "''/out/a.rst''" and root = example_fs]
  have "lookup root' ''/out/a.rst'' = Some (File ''doc'')" by simp
  with w have "lookup (snd (write_to_file ''doc'' ''/out/a.rst'' example_fs)) ''/out/a.rst''
       = Some (File ''doc'')" by simp
  with fails nowhere dir free show ?thesis by blast
qed


section \<open>Properties of the Block Scanner\<close>

lemma find_marker_first:
  assumes m: "m = h # t" and h: "h \<notin> set t"
  shows "find_marker m a = None \<Longrightarrow> find_marker m (a @ m @ b) = Some (length a)"
proof (induction a)
  case Nil
  show ?case using m by (simp add: startswith_def)
next
  case (Cons c a)
  from Cons.prems have ns: "\<not> startswith (c # a) m" and none: "find_marker m a = None"
    by (auto split: if_splits)
  have "\<not> startswith (c # a @ m @ b) m"
  proof
    assume sw: "startswith (c # a @ m @ b) m"
    then have tk: "take (length m) (c # a @ m @ b) = m" by (simp add: startswith_def)
    show False
    proof (cases "length m \<le> length (c # a)")
      case True
      then have "take (length m) ((c # a) @ m @ b) = take (length m) (c # a)"
        by (simp only: take_append) simp
      then have "take (length m) (c # a @ m @ b) = take (length m) (c # a)" by simp
      with tk ns show False by (simp add: startswith_def)
    next
      case False
      let ?k = "length (c # a)"
      from False have k: "?k < length m" by simp
      have "(c # a @ m @ b) ! ?k = h"
        using m by (simp add: nth_append)
      moreover have "(c # a @ m @ b) ! ?k = take (length m) (c # a @ m @ b) ! ?k"
        using k by simp
      ultimately have "m ! ?k = h" using tk by simp
      then have "t ! length a = h" using m by simp
      moreover have "length a < length t" using k m by simp
      ultimately have "h \<in> set t" using nth_mem by blast
      with h show False by simp
    qed
  qed
  with Cons.IH [OF none] show ?case by simp
qed

lemma find_start:
  "\<not> occurs start_marker gap \<Longrightarrow> find_marker start_marker (gap @ start_marker @ rest) = Some (length gap)"
  using find_marker_first [of start_marker "CHR ''#''" "''[[[''" gap rest]
  by (simp add: occurs_def start_marker_def)

lemma find_end:
  "\<not> occurs end_marker body \<Longrightarrow> find_marker end_marker (body @ end_marker @ rest) = Some (length body)"
  using find_marker_first [of end_marker "CHR ''#''" "'']]''" body rest]
  by (simp add: occurs_def end_marker_def)

lemma scan_from_build:
  assumes "\<forall>(gap, body) \<in> set layout. \<not> occurs start_marker gap \<and> \<not> occurs end_marker body"
  shows "scan_from pos (build layout tail) =
           (laid_out pos layout @ fst (scan_from (pos + length (build layout [])) tail),
            snd (scan_from (pos + length (build layout [])) tail))"
  using assms
proof (induction layout arbitrary: pos)
  case Nil
  then show ?case by simp
next
  case (Cons gb layout)
  obtain gap body where gb: "gb = (gap, body)" by (cases gb)
  from Cons.prems gb have gap: "\<not> occurs start_marker gap" and body: "\<not> occurs end_marker body"
    and rest: "\<forall>(gap, body) \<in> set layout. \<not> occurs start_marker gap \<and> \<not> occurs end_marker body"
    by auto
  let ?rest = "build layout tail"
  let ?n = "length gap + length start_marker + length body + length end_marker"
  have i: "find_marker start_marker (build (gb # layout) tail) = Some (length gap)"
    using find_start [OF gap] gb by simp
  have after: "drop (length gap + length start_marker) (build (gb # layout) tail)
                 = body @ end_marker @ ?rest"
    using gb by simp
  have j: "find_marker end_marker (body @ end_marker @ ?rest) = Some (length body)"
    using find_end [OF body] .
  have resume: "drop ?n (build (gb # layout) tail) = ?rest"
    using gb by simp
  have len: "length (build (gb # layout) []) = ?n + length (build layout [])"
    using gb by simp
  show ?case
    apply (subst scan_from.simps)
    apply (simp only: i after j option.case Let_def resume take_append)
    apply (simp only: Cons.IH [OF rest] len gb laid_out.simps)
    apply (simp add: add.assoc)
    done
qed


lemma length_laid_out: "length (laid_out pos layout) = length layout"
  by (induction pos layout rule: laid_out.induct) auto

lemma raw_text_laid_out: "map raw_text (laid_out pos layout) = map snd layout"
  by (induction pos layout rule: laid_out.induct) auto

lemma laid_out_bounds:
  "b \<in> set (laid_out pos layout) \<Longrightarrow>
   pos \<le> start_offset b
   \<and> end_offset b = start_offset b + length start_marker + length (raw_text b) + length end_marker
   \<and> end_offset b \<le> pos + length (build layout [])"
proof (induction pos layout rule: laid_out.induct)
  case (1 pos)
  then show ?case by simp
next
  case (2 pos gap body layout)
  from "2.prems" consider
    (head) "b = \<lparr>start_offset = pos + length gap,
      end_offset = pos + length gap + length start_marker + length body + length end_marker,
      raw_text = body\<rparr>"
    | (later) "b \<in> set (laid_out (pos + length gap + length start_marker + length body
                              + length end_marker) layout)"
    by auto
  then show ?case
  proof cases
    case head
    then show ?thesis by simp
  next
    case later
    from "2.IH" [OF this] show ?thesis by simp
  qed
qed


lemma laid_out_text:
  "b \<in> set (laid_out pos layout) \<Longrightarrow>
   \<exists>after. drop (start_offset b - pos) (build layout tail)
             = start_marker @ raw_text b @ end_marker @ after"
proof (induction pos layout rule: laid_out.induct)
  case (1 pos)
  then show ?case by simp
next
  case (2 pos gap body layout)
  let ?n = "length gap + length start_marker + length body + length end_marker"
  from "2.prems" consider
    (head) "b = \<lparr>start_offset = pos + length gap,
      end_offset = pos + length gap + length start_marker + length body + length end_marker,
      raw_text = body\<rparr>"
    | (later) "b \<in> set (laid_out (pos + length gap + length start_marker + length body
                              + length end_marker) layout)"
    by auto
  then show ?case
  proof cases
    case head
    then show ?thesis by simp
  next
    case b: later
    from "2.IH" [OF b] obtain after
      where a: "drop (start_offset b - (pos + ?n)) (build layout tail)
                  = start_marker @ raw_text b @ end_marker @ after"
      by (auto simp: add.assoc)
    from laid_out_bounds [OF b] have "pos + ?n \<le> start_offset b" by simp
    then have "start_offset b - pos = ?n + (start_offset b - (pos + ?n))" by simp
    then have "drop (start_offset b - pos) (build ((gap, body) # layout) tail)
                 = drop (start_offset b - (pos + ?n)) (build layout tail)"
      by (simp only: build.simps) simp
    with a show ?thesis by simp
  qed
qed

lemma laid_out_ordered:
  "i < j \<Longrightarrow> j < length (laid_out pos layout) \<Longrightarrow>
   end_offset (laid_out pos layout ! i) \<le> start_offset (laid_out pos layout ! j)"
proof (induction pos layout arbitrary: i j rule: laid_out.induct)
  case (1 pos)
  then show ?case by simp
next
  case (2 pos gap body layout)
  let ?pos' = "pos + length gap + length start_marker + length body + length end_marker"
  from "2.prems" obtain j' where j: "j = Suc j'" by (cases j) auto
  with "2.prems" have j': "j' < length (laid_out ?pos' layout)" by simp
  show ?case
  proof (cases i)
    case 0
    from j' have "laid_out ?pos' layout ! j' \<in> set (laid_out ?pos' layout)" by simp
    from laid_out_bounds [OF this] 0 j show ?thesis by simp
  next
    case (Suc i')
    with "2.prems" j have "i' < j'" by simp
    from "2.IH" [OF this j'] Suc j show ?thesis by simp
  qed
qed


text \<open>
  C5, for the scanner as the spec describes it.  Let the source consist of N blocks, each
  a start marker, a body without an end marker and an end marker, with no start marker
  in the text before, between and after them.  Then the scanner yields N blocks and no
  warning; their bodies are those of the source, in its order; the start marker stands
  at each block's start offset, the body after it, and the end marker ends at the
  block's end offset; and each block ends before the next one starts.
\<close>

theorem scanner_yields_blocks:
  assumes wf: "\<forall>(gap, body) \<in> set layout.
                 \<not> occurs start_marker gap \<and> \<not> occurs end_marker body"
    and tail: "\<not> occurs start_marker tail"
    and src: "src = build layout tail"
    and blocks: "blocks = fst (scan src)"
  shows "length blocks = length layout
       \<and> snd (scan src) = []
       \<and> map raw_text blocks = map snd layout
       \<and> (\<forall>b \<in> set blocks.
             take (length start_marker) (drop (start_offset b) src) = start_marker
             \<and> take (length (raw_text b)) (drop (start_offset b + length start_marker) src)
                 = raw_text b
             \<and> take (length end_marker) (drop (end_offset b - length end_marker) src)
                 = end_marker
             \<and> end_offset b
                 = start_offset b + length start_marker + length (raw_text b) + length end_marker
             \<and> end_offset b \<le> length src)
       \<and> (\<forall>i j. i < j \<and> j < length blocks \<longrightarrow>
             end_offset (blocks ! i) \<le> start_offset (blocks ! j))"
proof -
  have none: "scan_from pos tail = ([], [])" for pos
    using tail by (subst scan_from.simps) (simp add: occurs_def)
  have sc: "scan src = (laid_out 0 layout, [])"
    unfolding scan_def src scan_from_build [OF wf] none by simp
  then have bl: "blocks = laid_out 0 layout" using blocks by simp
  have len: "length src = length (build layout []) + length tail"
    unfolding src by (induction layout) auto
  have each: "take (length start_marker) (drop (start_offset b) src) = start_marker
             \<and> take (length (raw_text b)) (drop (start_offset b + length start_marker) src)
                 = raw_text b
             \<and> take (length end_marker) (drop (end_offset b - length end_marker) src)
                 = end_marker
             \<and> end_offset b
                 = start_offset b + length start_marker + length (raw_text b) + length end_marker
             \<and> end_offset b \<le> length src" if b: "b \<in> set blocks" for b
  proof -
    from b bl have mem: "b \<in> set (laid_out 0 layout)" by simp
    from laid_out_text [OF mem, of tail] obtain after
      where d: "drop (start_offset b) src = start_marker @ raw_text b @ end_marker @ after"
      unfolding src by auto
    from laid_out_bounds [OF mem]
    have e: "end_offset b
               = start_offset b + length start_marker + length (raw_text b) + length end_marker"
      and le: "end_offset b \<le> length (build layout [])" by simp_all
    have "drop (start_offset b + length start_marker) src
            = drop (length start_marker) (drop (start_offset b) src)"
      by (simp add: add.commute)
    then have body: "drop (start_offset b + length start_marker) src
            = raw_text b @ end_marker @ after"
      unfolding d by simp
    have "drop (end_offset b - length end_marker) src
            = drop (length start_marker + length (raw_text b)) (drop (start_offset b) src)"
      unfolding e by (simp add: add.commute add.left_commute)
    then have "drop (end_offset b - length end_marker) src = end_marker @ after"
      unfolding d by simp
    with d body e le len show ?thesis by simp
  qed
  have ord: "end_offset (blocks ! i) \<le> start_offset (blocks ! j)"
    if "i < j" "j < length blocks" for i j
    using that laid_out_ordered [of i j 0 layout] bl by simp
  have c1: "length blocks = length layout" using bl by (simp add: length_laid_out)
  have c2: "snd (scan src) = []" using sc by simp
  have c3: "map raw_text blocks = map snd layout" using bl by (simp add: raw_text_laid_out)
  from c1 c2 c3 each ord show ?thesis by blast
qed


theorem scanner_yields_blocks_witness:
  "\<not> occurs start_marker ''set(x 1) '' \<and> \<not> occurs end_marker '' First. ''
   \<and> \<not> occurs start_marker '' function(f) '' \<and> \<not> occurs end_marker ''Second #[[[ one''
   \<and> \<not> occurs start_marker '' endfunction()''
   \<and> build [(''set(x 1) '', '' First. ''), ('' function(f) '', ''Second #[[[ one'')]
         '' endfunction()''
       = ''set(x 1) #[[[ First. #]] function(f) #[[[Second #[[[ one#]] endfunction()''
   \<and> fst (scan ''set(x 1) #[[[ First. #]] function(f) #[[[Second #[[[ one#]] endfunction()'')
       = [\<lparr>start_offset = 9, end_offset = 24, raw_text = '' First. ''\<rparr>,
          \<lparr>start_offset = 37, end_offset = 59, raw_text = ''Second #[[[ one''\<rparr>]
   \<and> snd (scan ''set(x 1) #[[[ First. #]] function(f) #[[[Second #[[[ one#]] endfunction()'')
       = []"
proof -
  let ?layout = "[(''set(x 1) '', '' First. ''), ('' function(f) '', ''Second #[[[ one'')]"
  let ?src = "''set(x 1) #[[[ First. #]] function(f) #[[[Second #[[[ one#]] endfunction()''"
  have wf: "\<forall>(gap, body) \<in> set ?layout.
              \<not> occurs start_marker gap \<and> \<not> occurs end_marker body"
    by code_simp
  have parts: "\<not> occurs start_marker ''set(x 1) ''" "\<not> occurs end_marker '' First. ''"
    "\<not> occurs start_marker '' function(f) ''" "\<not> occurs end_marker ''Second #[[[ one''"
    by code_simp+
  have tail: "\<not> occurs start_marker '' endfunction()''" by code_simp
  have src: "?src = build ?layout '' endfunction()''" by code_simp
  have blocks: "fst (scan ?src)
       = [\<lparr>start_offset = 9, end_offset = 24, raw_text = '' First. ''\<rparr>,
          \<lparr>start_offset = 37, end_offset = 59, raw_text = ''Second #[[[ one''\<rparr>]"
    by code_simp
  from scanner_yields_blocks [OF wf tail src refl]
  have "snd (scan ?src) = []" by blast
  with parts tail src blocks show ?thesis by simp
qed







section \<open>The example of the spec\<close>

lemma occurs_append: "occurs m b \<Longrightarrow> occurs m (a @ b)"
  by (induction a) (auto simp: occurs_def)

lemma join_with_head: "\<exists>r. join_with sep (x # xs) = x @ r"
  by (cases xs) auto

lemma greet_scan:
  assumes "\<not> occurs start_marker body"
  shows "scan (greet_source body)
           = ([\<lparr>start_offset = 0, end_offset = 54, raw_text = greet_block\<rparr>], [])"
proof -
  let ?tail = "[CHR 0x0A] @ ''function(greet name)'' @ [CHR 0x0A] @ body"
  have src: "greet_source body = build [([], greet_block)] ?tail"
    by (simp add: greet_source_def)
  have wf: "\<forall>(gap, b) \<in> set [([], greet_block)].
              \<not> occurs start_marker gap \<and> \<not> occurs end_marker b"
    by code_simp
  have "find_marker start_marker ?tail = None"
    using assms by (simp add: occurs_def start_marker_def startswith_def)
  then have none: "scan_from pos ?tail = ([], [])" for pos
    by (subst scan_from.simps) simp
  have len: "length greet_block = 47" by code_simp
  show ?thesis
    unfolding scan_def src scan_from_build [OF wf] none
    by (simp add: len start_marker_def end_marker_def)
qed

lemma greet_signature:
  "associate_at 54 (greet_source body)
     = (\<lparr>kind = FUNCTION, sig_name = ''greet'', parameters = [''name'']\<rparr>, [])"
proof -
  let ?nl = "CHR 0x0A"
  let ?line = "''function(greet name)''"
  have len: "length (start_marker @ greet_block @ end_marker) = 54" by code_simp
  have "greet_source body = (start_marker @ greet_block @ end_marker) @ ?nl # ?line @ ?nl # body"
    by (simp add: greet_source_def)
  then have "drop 54 (greet_source body) = ?nl # ?line @ ?nl # body"
    using len by (metis append_eq_conv_conj)
  moreover have "split_on ?nl (?line @ ?nl # body) = ?line # split_on ?nl body"
    by (rule split_on_first_sep) simp
  ultimately have ls: "split_on ?nl (drop 54 (greet_source body))
      = [] # ?line # split_on ?nl body"
    by simp
  have skip: "dropWhile (\<lambda>l. blank l \<or> ordinary_comment l) ([] # ?line # split_on ?nl body)
      = ?line # split_on ?nl body"
    by (simp add: blank_def ordinary_comment_def lstrip_def startswith_def)
  have kw: "keyword_in declaration_keywords (lstrip ?line) = Some (FUNCTION, ''greet name)'')"
    by code_simp
  obtain r where decl: "join_with [?nl] (''greet name)'' # split_on ?nl body) = ''greet name)'' @ r"
    using join_with_head by blast
  have closed: "CHR '')'' \<in> set (''greet name)'' @ r)" by simp
  have upto: "takeWhile (\<lambda>c. c \<noteq> CHR '')'') (''greet name)'' @ r) = ''greet name''" by simp
  have ws: "words_of ''greet name'' = [''greet'', ''name'']" by code_simp
  show ?thesis
    unfolding associate_at_def Let_def ls skip
    by (simp only: list.case kw option.case prod.case decl closed upto ws if_True)
       simp
qed

lemma greet_parsed:
  "parse_block (strip_continuation greet_block)
     = (''Greets a person.'', [(''param'', ''name: the person's name'')])"
  by code_simp

lemma greet_model:
  assumes "\<not> occurs start_marker body"
  shows "build_model parse_block associate_at source_id header (greet_source body)
           = (\<lparr>source_identifier = source_id, header_display_name = header,
                entries = [greet_entry]\<rparr>, [])"
  by (simp add: build_model_def greet_scan [OF assms] bind_block_def greet_parsed
        greet_signature greet_entry_def)

lemma greet_rendered:
  "render \<lparr>source_identifier = source_id, header_display_name = header,
           entries = [greet_entry]\<rparr>
     = header @ CHR 0x0A # replicate (length header) (CHR ''#'') @ CHR 0x0A # CHR 0x0A #
       ''.. function:: greet(name)'' @ CHR 0x0A # CHR 0x0A # ''Greets a person.''
       @ CHR 0x0A # CHR 0x0A # '':param name: the person's name'' @ [CHR 0x0A]"
  by (simp add: render_def render_entry_def greet_entry_def heading_def render_field_def)


text \<open>
  C7, for the pipeline as the spec describes it.  Let a file hold the block with the
  inner text of the example, followed on the next line by \<open>function(greet name)\<close> and
  any body without a start marker.  Then the model has one entry: kind \<open>FUNCTION\<close>, name
  \<open>greet\<close>, parameters \<open>name\<close>, description \<open>Greets a person.\<close>, and the single field
  \<open>param\<close> with payload \<open>name: the person's name\<close>; there is no warning; and the rendered
  output contains \<open>greet\<close>, the field list entry \<open>:param name: the person's name\<close> and
  the description.
\<close>

theorem greet_example:
  assumes body: "\<not> occurs start_marker body"
    and stored: "lookup root file = Some (File (greet_source body))"
  shows "\<exists>e out.
           entries (fst (build_model parse_block associate_at file header (greet_source body)))
             = [e]
           \<and> kind (signature e) = FUNCTION
           \<and> sig_name (signature e) = ''greet''
           \<and> parameters (signature e) = [''name'']
           \<and> description (block e) = ''Greets a person.''
           \<and> field_tags (block e) = [(''param'', ''name: the person's name'')]
           \<and> snd (build_model parse_block associate_at file header (greet_source body)) = []
           \<and> process file header root = Inr ([], out)
           \<and> occurs ''greet'' out
           \<and> occurs '':param name: the person's name'' out
           \<and> occurs ''Greets a person.'' out"
proof -
  let ?m = "\<lparr>source_identifier = file, header_display_name = header,
             entries = [greet_entry]\<rparr>"
  let ?shown = "''.. function:: greet(name)'' @ CHR 0x0A # CHR 0x0A # ''Greets a person.''
       @ CHR 0x0A # CHR 0x0A # '':param name: the person's name'' @ [CHR 0x0A]"
  have bm: "build_model parse_block associate_at file header (greet_source body) = (?m, [])"
    using greet_model [OF body] .
  have pr: "process file header root = Inr ([], render ?m)"
    by (simp add: process_def stored bm)
  have r: "render ?m
     = (header @ CHR 0x0A # replicate (length header) (CHR ''#'') @ [CHR 0x0A, CHR 0x0A])
       @ ?shown"
    by (simp add: greet_rendered)
  have o1: "occurs ''greet'' (render ?m)"
    unfolding r by (rule occurs_append) code_simp
  have o2: "occurs '':param name: the person's name'' (render ?m)"
    unfolding r by (rule occurs_append) code_simp
  have o3: "occurs ''Greets a person.'' (render ?m)"
    unfolding r by (rule occurs_append) code_simp
  have e: "kind (signature greet_entry) = FUNCTION"
    "sig_name (signature greet_entry) = ''greet''"
    "parameters (signature greet_entry) = [''name'']"
    "description (block greet_entry) = ''Greets a person.''"
    "field_tags (block greet_entry) = [(''param'', ''name: the person's name'')]"
    by (simp_all add: greet_entry_def)
  from bm pr o1 o2 o3 e show ?thesis
    by (intro exI [of _ greet_entry] exI [of _ "render ?m"]) simp
qed

theorem greet_example_witness:
  "\<not> occurs start_marker greet_body
   \<and> lookup (Dir [(''greet.cmake'', File (greet_source greet_body))]) ''/greet.cmake''
       = Some (File (greet_source greet_body))
   \<and> entries (fst (build_model parse_block associate_at ''/greet.cmake'' ''greet.cmake''
                     (greet_source greet_body)))
       = [greet_entry]
   \<and> (\<exists>out. process ''/greet.cmake'' ''greet.cmake''
                (Dir [(''greet.cmake'', File (greet_source greet_body))]) = Inr ([], out)
            \<and> occurs ''greet'' out)"
proof -
  let ?root = "Dir [(''greet.cmake'', File (greet_source greet_body))]"
  have body: "\<not> occurs start_marker greet_body" by code_simp
  have stored: "lookup ?root ''/greet.cmake'' = Some (File (greet_source greet_body))"
    by code_simp
  have es: "entries (fst (build_model parse_block associate_at ''/greet.cmake'' ''greet.cmake''
                     (greet_source greet_body))) = [greet_entry]"
    by code_simp
  from greet_example [OF body stored, of "''greet.cmake''"]
  have "\<exists>out. process ''/greet.cmake'' ''greet.cmake'' ?root = Inr ([], out)
            \<and> occurs ''greet'' out"
    by blast
  with body stored es show ?thesis by blast
qed

end
